theory Spec2Isabelle
  imports Main "HOL-Library.Sublist"
begin

section \<open>Stop-reason mapping (src/transformers/response.js)\<close>

text \<open>
  A value read out of a JavaScript object by a string key. The table of
  \<open>mapStopReason\<close> is an object literal, so a lookup that misses the table's own
  keys continues on \<open>Object.prototype\<close>: for the member names of the prototype the
  lookup yields that member (a function or object, truthy), not \<open>undefined\<close>.
\<close>

datatype js_value = JString string | JInherited string

definition object_prototype_names :: "string list" where
  "object_prototype_names =
     [''constructor'', ''__defineGetter__'', ''__defineSetter__'', ''hasOwnProperty'',
      ''__lookupGetter__'', ''__lookupSetter__'', ''isPrototypeOf'',
      ''propertyIsEnumerable'', ''toString'', ''valueOf'', ''__proto__'',
      ''toLocaleString'']"

definition js_get :: "(string \<times> string) list \<Rightarrow> string \<Rightarrow> js_value option" where
  "js_get obj key =
     (case map_of obj key of
        Some v \<Rightarrow> Some (JString v)
      | None \<Rightarrow> if key \<in> set object_prototype_names then Some (JInherited key) else None)"

text \<open>The object literal \<open>mapping\<close> of \<open>mapStopReason\<close>, in source order.\<close>

definition mapping :: "(string \<times> string) list" where
  "mapping =
     [(''stop'', ''end_turn''),
      (''length'', ''max_tokens''),
      (''tool_calls'', ''tool_use''),
      (''content_filter'', ''end_turn''),
      (''function_call'', ''tool_use'')]"

text \<open>
  \<open>finishReason\<close> is \<open>None\<close> when the field is absent or null: the key is then the
  string \<open>undefined\<close> or \<open>null\<close>, which the table does not hold.
\<close>

definition mapStopReason :: "string option \<Rightarrow> bool \<Rightarrow> js_value" where
  "mapStopReason finishReason hasToolCalls =
     (if hasToolCalls then JString ''tool_use''
      else case js_get mapping (case finishReason of None \<Rightarrow> ''undefined'' | Some f \<Rightarrow> f) of
             Some v \<Rightarrow> v
           | None \<Rightarrow> JString ''end_turn'')"

text \<open>Tool names of src/tools/definitions.js.\<close>

definition OUR_TOOL_NAMES :: "string list" where
  "OUR_TOOL_NAMES = [''web_search'', ''web_reader'']"

definition TOOL_ALIASES :: "(string \<times> string) list" where
  "TOOL_ALIASES =
     [(''WebSearch'', ''web_search''),
      (''websearch'', ''web_search''),
      (''Websearch'', ''web_search''),
      (''WebFetch'', ''web_reader''),
      (''webfetch'', ''web_reader''),
      (''Webfetch'', ''web_reader''),
      (''search_web'', ''web_search''),
      (''fetch_url'', ''web_reader''),
      (''read_url'', ''web_reader''),
      (''browse'', ''web_reader'')]"

definition isOurTool :: "string \<Rightarrow> bool" where
  "isOurTool name \<longleftrightarrow> name \<in> set OUR_TOOL_NAMES \<or> map_of TOOL_ALIASES name \<noteq> None"

text \<open>
  \<open>TOOL_ALIASES[name] || name\<close>: the lookup in the object literal finds the
  inherited member for a member name of \<open>Object.prototype\<close>.
\<close>

definition getCanonicalToolName :: "string \<Rightarrow> js_value" where
  "getCanonicalToolName name =
     (if name \<in> set OUR_TOOL_NAMES then JString name
      else case js_get TOOL_ALIASES name of Some a \<Rightarrow> a | None \<Rightarrow> JString name)"

record tool_call =
  tc_id :: string
  tc_name :: string
  tc_arguments :: string

text \<open>
  The first choice of a backend response, as far as \<open>transformResponse\<close> reads it
  for the stop reason: \<open>choice.finish_reason\<close> and \<open>message.tool_calls || []\<close>.
\<close>

record glm_choice =
  finish_reason :: "string option"
  choice_tool_calls :: "tool_call list"

definition clientToolCalls_of :: "tool_call list \<Rightarrow> tool_call list" where
  "clientToolCalls_of toolCalls = filter (\<lambda>tc. \<not> isOurTool (tc_name tc)) toolCalls"

text \<open>The \<open>stop_reason\<close> field that \<open>transformResponse\<close> writes.\<close>

definition transformResponse_stop_reason :: "glm_choice \<Rightarrow> js_value" where
  "transformResponse_stop_reason choice =
     (let clientToolCalls = clientToolCalls_of (choice_tool_calls choice);
          hasClientToolCalls = length clientToolCalls > 0
      in mapStopReason (finish_reason choice) hasClientToolCalls)"

lemma js_get_mapping_own:
  "js_get mapping ''stop'' = Some (JString ''end_turn'')"
  "js_get mapping ''length'' = Some (JString ''max_tokens'')"
  "js_get mapping ''tool_calls'' = Some (JString ''tool_use'')"
  "js_get mapping ''content_filter'' = Some (JString ''end_turn'')"
  "js_get mapping ''function_call'' = Some (JString ''tool_use'')"
  by (simp_all add: js_get_def mapping_def)

lemma js_get_mapping_miss:
  "f \<notin> set (map fst mapping) \<Longrightarrow> f \<notin> set object_prototype_names \<Longrightarrow> js_get mapping f = None"
  using map_of_eq_None_iff [of mapping f] by (simp add: js_get_def)

lemma js_get_mapping_undefined: "js_get mapping ''undefined'' = None"
  by (simp add: js_get_def mapping_def object_prototype_names_def)

lemma mapStopReason_inherited:
  "mapStopReason (Some ''constructor'') False = JInherited ''constructor''"
  by (simp add: mapStopReason_def js_get_def mapping_def object_prototype_names_def)

text \<open>
  C5 (as stated) fails: with a client tool call present, finish reason \<open>length\<close>
  gives \<open>tool_use\<close>, not \<open>max_tokens\<close>.
\<close>

theorem stop_reason_length_with_client_tool:
  "transformResponse_stop_reason
     \<lparr>finish_reason = Some ''length'',
      choice_tool_calls = [\<lparr>tc_id = ''call_1'', tc_name = ''Read'', tc_arguments = ''{}''\<rparr>]\<rparr>
   = JString ''tool_use'' \<and>
   transformResponse_stop_reason
     \<lparr>finish_reason = Some ''length'',
      choice_tool_calls = [\<lparr>tc_id = ''call_1'', tc_name = ''Read'', tc_arguments = ''{}''\<rparr>]\<rparr>
   \<noteq> JString ''max_tokens''"
  by (simp add: transformResponse_stop_reason_def clientToolCalls_of_def isOurTool_def
      OUR_TOOL_NAMES_def TOOL_ALIASES_def mapStopReason_def)

text \<open>
  C5 (amended). The recomputed \<open>stop_reason\<close>: when a client tool call remains it is
  \<open>tool_use\<close> whatever the finish reason (also for \<open>length\<close>). Otherwise \<open>stop\<close>
  gives \<open>end_turn\<close>, \<open>length\<close> gives \<open>max_tokens\<close>, \<open>tool_calls\<close> and
  \<open>function_call\<close> give \<open>tool_use\<close>, \<open>content_filter\<close> gives \<open>end_turn\<close>, and an
  absent finish reason or any other value that is not the name of a member of
  \<open>Object.prototype\<close> gives \<open>end_turn\<close>.
\<close>

theorem stop_reason_mapping:
  "(clientToolCalls_of (choice_tool_calls c) \<noteq> [] \<longrightarrow>
      transformResponse_stop_reason c = JString ''tool_use'') \<and>
   (clientToolCalls_of (choice_tool_calls c) = [] \<longrightarrow>
      (finish_reason c = Some ''stop'' \<longrightarrow> transformResponse_stop_reason c = JString ''end_turn'') \<and>
      (finish_reason c = Some ''length'' \<longrightarrow> transformResponse_stop_reason c = JString ''max_tokens'') \<and>
      (finish_reason c = Some ''tool_calls'' \<longrightarrow> transformResponse_stop_reason c = JString ''tool_use'') \<and>
      (finish_reason c = Some ''function_call'' \<longrightarrow> transformResponse_stop_reason c = JString ''tool_use'') \<and>
      (finish_reason c = Some ''content_filter'' \<longrightarrow> transformResponse_stop_reason c = JString ''end_turn'') \<and>
      (finish_reason c = None \<longrightarrow> transformResponse_stop_reason c = JString ''end_turn'') \<and>
      (\<forall>f. finish_reason c = Some f \<and> f \<notin> set (map fst mapping) \<and> f \<notin> set object_prototype_names \<longrightarrow>
           transformResponse_stop_reason c = JString ''end_turn''))"
proof -
  have tools: "clientToolCalls_of (choice_tool_calls c) \<noteq> [] \<Longrightarrow>
      transformResponse_stop_reason c = JString ''tool_use''"
    by (simp add: transformResponse_stop_reason_def mapStopReason_def)
  have none: "clientToolCalls_of (choice_tool_calls c) = [] \<Longrightarrow>
      transformResponse_stop_reason c =
        (case js_get mapping (case finish_reason c of None \<Rightarrow> ''undefined'' | Some f \<Rightarrow> f) of
           Some v \<Rightarrow> v | None \<Rightarrow> JString ''end_turn'')"
    by (simp add: transformResponse_stop_reason_def mapStopReason_def)
  show ?thesis
    using tools none
    by (auto simp: js_get_mapping_own js_get_mapping_miss js_get_mapping_undefined)
qed

theorem stop_reason_mapping_witness:
  "transformResponse_stop_reason
     \<lparr>finish_reason = Some ''stop'',
      choice_tool_calls = [\<lparr>tc_id = ''call_1'', tc_name = ''Read'', tc_arguments = ''{}''\<rparr>]\<rparr>
     = JString ''tool_use'' \<and>
   transformResponse_stop_reason
     \<lparr>finish_reason = Some ''length'',
      choice_tool_calls = [\<lparr>tc_id = ''call_2'', tc_name = ''web_search'', tc_arguments = ''{}''\<rparr>]\<rparr>
     = JString ''max_tokens'' \<and>
   transformResponse_stop_reason \<lparr>finish_reason = Some ''eos'', choice_tool_calls = []\<rparr>
     = JString ''end_turn''"
proof -
  have a: "clientToolCalls_of [\<lparr>tc_id = ''call_1'', tc_name = ''Read'', tc_arguments = ''{}''\<rparr>] \<noteq> []"
    by (simp add: clientToolCalls_of_def isOurTool_def OUR_TOOL_NAMES_def TOOL_ALIASES_def)
  have b: "clientToolCalls_of [\<lparr>tc_id = ''call_2'', tc_name = ''web_search'', tc_arguments = ''{}''\<rparr>] = []"
    by (simp add: clientToolCalls_of_def isOurTool_def OUR_TOOL_NAMES_def)
  have c: "clientToolCalls_of [] = []"
    by (simp add: clientToolCalls_of_def)
  have d: "''eos'' \<notin> set (map fst mapping) \<and> ''eos'' \<notin> set object_prototype_names"
    by (simp add: mapping_def object_prototype_names_def)
  show ?thesis
    using a b c d
      stop_reason_mapping [of "\<lparr>finish_reason = Some ''stop'',
        choice_tool_calls = [\<lparr>tc_id = ''call_1'', tc_name = ''Read'', tc_arguments = ''{}''\<rparr>]\<rparr>"]
      stop_reason_mapping [of "\<lparr>finish_reason = Some ''length'',
        choice_tool_calls = [\<lparr>tc_id = ''call_2'', tc_name = ''web_search'', tc_arguments = ''{}''\<rparr>]\<rparr>"]
      stop_reason_mapping [of "\<lparr>finish_reason = Some ''eos'', choice_tool_calls = []\<rparr>"]
    by simp
qed


section \<open>Model router and endpoint selection (routing/model-router.js, src/server.js)\<close>

text \<open>
  A content block is a JSON object read by its \<open>type\<close> string and, for a
  \<open>tool_result\<close>, by its \<open>content\<close>, which is a string, an array of blocks, or
  absent. A message's \<open>content\<close> has the same three shapes.
\<close>

datatype block = Block (block_type: string) (block_content: js_content)
  and js_content = Absent | Str string | Arr "block list"

record message =
  msg_role :: string
  msg_content :: js_content

record config =
  endpoint_mode :: string
  endpoint_useAnthropic :: bool
  models_text :: string
  models_vision :: string
  defaultModel :: string
  visionModel :: string
  webSearch_enabled :: bool
  maxIterations :: nat
  maxConsecutiveInternal :: nat

text \<open>JavaScript's \<open>a || b\<close> on strings: the empty string is falsy.\<close>

definition js_or :: "string \<Rightarrow> string \<Rightarrow> string" where
  "js_or a b = (if a = [] then b else a)"

definition isImageBlock :: "block \<Rightarrow> bool" where
  "isImageBlock b =
     (if block_type b = ''image'' then True
      else if block_type b = ''image_url'' then True
      else False)"

definition isVideoBlock :: "block \<Rightarrow> bool" where
  "isVideoBlock b =
     (if block_type b = ''video'' then True
      else if block_type b = ''video_url'' then True
      else False)"

definition isMediaBlock :: "block \<Rightarrow> bool" where
  "isMediaBlock b \<longleftrightarrow> isImageBlock b \<or> isVideoBlock b"

definition contentHasMedia :: "js_content \<Rightarrow> bool" where
  "contentHasMedia contentArray =
     (case contentArray of
        Arr blocks \<Rightarrow>
          list_ex (\<lambda>b.
            if isMediaBlock b then True
            else if block_type b = ''tool_result'' then
              (case block_content b of
                 Str _ \<Rightarrow> False
               | Arr cs \<Rightarrow> list_ex isMediaBlock cs
               | Absent \<Rightarrow> False)
            else False) blocks
      | _ \<Rightarrow> False)"

definition detectMedia :: "message list \<Rightarrow> bool" where
  "detectMedia messages =
     list_ex (\<lambda>msg.
       case msg_content msg of
         Str _ \<Rightarrow> False
       | Arr _ \<Rightarrow> contentHasMedia (msg_content msg)
       | Absent \<Rightarrow> False) messages"

definition detectImages :: "message list \<Rightarrow> bool" where
  "detectImages messages = detectMedia messages"

text \<open>\<open>selectModel\<close> called with no options, as both request transformers call it.\<close>

definition selectModel :: "config \<Rightarrow> message list \<Rightarrow> string \<times> bool" where
  "selectModel cfg messages =
     (let textModel = js_or (models_text cfg) (defaultModel cfg);
          visionModel' = js_or (models_vision cfg) (visionModel cfg);
          hasMedia = detectMedia messages
      in (if hasMedia then visionModel' else textModel, hasMedia))"

definition determineEndpoint :: "config \<Rightarrow> bool \<Rightarrow> string" where
  "determineEndpoint cfg hasImagesInCurrentMessage =
     (if hasImagesInCurrentMessage then ''openai''
      else let mode = endpoint_mode cfg in
        if mode = ''anthropic'' \<or> mode = ''openai'' \<or> mode = ''bigmodel'' then mode
        else if endpoint_useAnthropic cfg then ''anthropic'' else ''openai'')"

text \<open>
  \<open>messages.length > 0 ? [messages[messages.length - 1]] : []\<close>, the scan window of
  \<open>handleMessages\<close>, \<open>transformRequest\<close> and \<open>prepareAnthropicRequest\<close>.
\<close>

definition lastMessage_of :: "message list \<Rightarrow> message list" where
  "lastMessage_of messages = (if length messages > 0 then [messages ! (length messages - 1)] else [])"

text \<open>
  The routing decision of one request: the endpoint \<open>handleMessages\<close> dispatches to,
  and the model the request transformer of that path puts into the backend request.
\<close>

definition request_routing :: "config \<Rightarrow> message list \<Rightarrow> string \<times> string" where
  "request_routing cfg messages =
     (let hasImagesInCurrentMessage = detectImages (lastMessage_of messages);
          endpoint = determineEndpoint cfg hasImagesInCurrentMessage;
          selectedModel = fst (selectModel cfg (lastMessage_of messages))
      in (endpoint, selectedModel))"

lemma lastMessage_of_snoc: "lastMessage_of (earlier @ [m]) = [m]"
  by (simp add: lastMessage_of_def nth_append)

lemma detectMedia_single:
  "detectMedia [m] = contentHasMedia (msg_content m)"
  by (cases "msg_content m") (simp_all add: detectMedia_def contentHasMedia_def)

lemma contentHasMedia_Arr:
  "contentHasMedia (Arr blocks) \<longleftrightarrow>
     (\<exists>b \<in> set blocks. isMediaBlock b \<or>
        (block_type b = ''tool_result'' \<and> (\<exists>cs. block_content b = Arr cs \<and> (\<exists>c \<in> set cs. isMediaBlock c))))"
proof -
  have "(if isMediaBlock b then True
         else if block_type b = ''tool_result'' then
           (case block_content b of Str _ \<Rightarrow> False | Arr cs \<Rightarrow> list_ex isMediaBlock cs
            | Absent \<Rightarrow> False)
         else False) \<longleftrightarrow>
        (isMediaBlock b \<or>
          (block_type b = ''tool_result'' \<and>
            (\<exists>cs. block_content b = Arr cs \<and> (\<exists>c \<in> set cs. isMediaBlock c))))" for b
    by (cases "block_content b") (auto simp: list_ex_iff)
  then show ?thesis
    by (simp add: contentHasMedia_def list_ex_iff)
qed

text \<open>
  C8. Routing table: media in the last message selects the OpenAI-style endpoint and
  the media-capable model for every mode; otherwise the three valid modes route to
  themselves and any other mode to the endpoint of the legacy flag, with the text
  model; and only the last message is read.
\<close>

theorem routing_table:
  "(detectMedia [m] \<longrightarrow>
      request_routing cfg (earlier @ [m]) = (''openai'', js_or (models_vision cfg) (visionModel cfg))) \<and>
   (\<not> detectMedia [m] \<longrightarrow>
      snd (request_routing cfg (earlier @ [m])) = js_or (models_text cfg) (defaultModel cfg) \<and>
      (endpoint_mode cfg = ''anthropic'' \<longrightarrow> fst (request_routing cfg (earlier @ [m])) = ''anthropic'') \<and>
      (endpoint_mode cfg = ''openai'' \<longrightarrow> fst (request_routing cfg (earlier @ [m])) = ''openai'') \<and>
      (endpoint_mode cfg = ''bigmodel'' \<longrightarrow> fst (request_routing cfg (earlier @ [m])) = ''bigmodel'') \<and>
      (endpoint_mode cfg \<notin> {''anthropic'', ''openai'', ''bigmodel''} \<longrightarrow>
         fst (request_routing cfg (earlier @ [m])) =
           (if endpoint_useAnthropic cfg then ''anthropic'' else ''openai''))) \<and>
   request_routing cfg (earlier @ [m]) = request_routing cfg (other @ [m])"
  by (simp add: request_routing_def lastMessage_of_snoc detectImages_def selectModel_def
      determineEndpoint_def Let_def)

theorem routing_table_witness:
  "request_routing
     \<lparr>endpoint_mode = ''anthropic'', endpoint_useAnthropic = True, models_text = ''glm-4.7'',
      models_vision = ''glm-4.6v'', defaultModel = ''glm-4.7'', visionModel = ''glm-4.6v'',
      webSearch_enabled = True, maxIterations = 15, maxConsecutiveInternal = 10\<rparr>
     [\<lparr>msg_role = ''user'', msg_content = Arr [Block ''image'' Absent]\<rparr>,
      \<lparr>msg_role = ''assistant'', msg_content = Str ''a cat''\<rparr>,
      \<lparr>msg_role = ''user'', msg_content = Str ''thanks''\<rparr>]
     = (''anthropic'', ''glm-4.7'') \<and>
   request_routing
     \<lparr>endpoint_mode = ''bigmodel'', endpoint_useAnthropic = True, models_text = ''glm-4.7'',
      models_vision = ''glm-4.6v'', defaultModel = ''glm-4.7'', visionModel = ''glm-4.6v'',
      webSearch_enabled = True, maxIterations = 15, maxConsecutiveInternal = 10\<rparr>
     [\<lparr>msg_role = ''user'', msg_content = Arr [Block ''text'' Absent, Block ''image'' Absent]\<rparr>]
     = (''openai'', ''glm-4.6v'') \<and>
   request_routing
     \<lparr>endpoint_mode = ''native'', endpoint_useAnthropic = False, models_text = ''glm-4.7'',
      models_vision = ''glm-4.6v'', defaultModel = ''glm-4.7'', visionModel = ''glm-4.6v'',
      webSearch_enabled = True, maxIterations = 15, maxConsecutiveInternal = 10\<rparr>
     [\<lparr>msg_role = ''user'', msg_content = Str ''hello''\<rparr>]
     = (''openai'', ''glm-4.7'')"
proof -
  let ?img = "\<lparr>msg_role = ''user'', msg_content = Arr [Block ''text'' Absent, Block ''image'' Absent]\<rparr>"
  let ?thanks = "\<lparr>msg_role = ''user'', msg_content = Str ''thanks''\<rparr>"
  let ?hello = "\<lparr>msg_role = ''user'', msg_content = Str ''hello''\<rparr>"
  have a: "\<not> detectMedia [?thanks]" "\<not> detectMedia [?hello]"
    by (simp_all add: detectMedia_def)
  have b: "detectMedia [?img]"
    by (simp add: detectMedia_def contentHasMedia_def isMediaBlock_def isImageBlock_def)
  show ?thesis
    using a b
      routing_table [of ?thanks
        "\<lparr>endpoint_mode = ''anthropic'', endpoint_useAnthropic = True, models_text = ''glm-4.7'',
          models_vision = ''glm-4.6v'', defaultModel = ''glm-4.7'', visionModel = ''glm-4.6v'',
          webSearch_enabled = True, maxIterations = 15, maxConsecutiveInternal = 10\<rparr>"
        "[\<lparr>msg_role = ''user'', msg_content = Arr [Block ''image'' Absent]\<rparr>,
          \<lparr>msg_role = ''assistant'', msg_content = Str ''a cat''\<rparr>]" "[]"]
      routing_table [of ?img
        "\<lparr>endpoint_mode = ''bigmodel'', endpoint_useAnthropic = True, models_text = ''glm-4.7'',
          models_vision = ''glm-4.6v'', defaultModel = ''glm-4.7'', visionModel = ''glm-4.6v'',
          webSearch_enabled = True, maxIterations = 15, maxConsecutiveInternal = 10\<rparr>" "[]" "[]"]
      routing_table [of ?hello
        "\<lparr>endpoint_mode = ''native'', endpoint_useAnthropic = False, models_text = ''glm-4.7'',
          models_vision = ''glm-4.6v'', defaultModel = ''glm-4.7'', visionModel = ''glm-4.6v'',
          webSearch_enabled = True, maxIterations = 15, maxConsecutiveInternal = 10\<rparr>" "[]" "[]"]
    by (simp add: js_or_def prod_eq_iff)
qed

text \<open>
  C10. Media detection looks one level into \<open>tool_result\<close> blocks: a
  \<open>tool_result\<close> whose content is an array holding an image or video block makes
  \<open>detectMedia\<close> true and selects the same model as a direct image block does, while
  a \<open>tool_result\<close> whose content is a string adds nothing to the scan.
\<close>

theorem tool_result_media_detection:
  "(isMediaBlock c \<longrightarrow>
      detectMedia [\<lparr>msg_role = r, msg_content =
          Arr (xs @ [Block ''tool_result'' (Arr (cs @ [c] @ ds))] @ ys)\<rparr>] \<and>
      selectModel cfg [\<lparr>msg_role = r, msg_content =
          Arr (xs @ [Block ''tool_result'' (Arr (cs @ [c] @ ds))] @ ys)\<rparr>] =
        selectModel cfg [\<lparr>msg_role = r, msg_content = Arr [Block ''image'' Absent]\<rparr>] \<and>
      fst (selectModel cfg [\<lparr>msg_role = r, msg_content =
          Arr (xs @ [Block ''tool_result'' (Arr (cs @ [c] @ ds))] @ ys)\<rparr>]) =
        js_or (models_vision cfg) (visionModel cfg)) \<and>
   detectMedia [\<lparr>msg_role = r, msg_content = Arr (xs @ [Block ''tool_result'' (Str s)] @ ys)\<rparr>] =
     detectMedia [\<lparr>msg_role = r, msg_content = Arr (xs @ ys)\<rparr>] \<and>
   \<not> detectMedia [\<lparr>msg_role = r, msg_content = Arr [Block ''tool_result'' (Str s)]\<rparr>]"
proof -
  have img: "contentHasMedia (Arr [Block ''image'' Absent])"
    by (simp add: contentHasMedia_def isMediaBlock_def isImageBlock_def)
  have nested: "isMediaBlock c \<Longrightarrow>
      contentHasMedia (Arr (xs @ [Block ''tool_result'' (Arr (cs @ [c] @ ds))] @ ys))"
    unfolding contentHasMedia_Arr by (rule bexI [where x = "Block ''tool_result'' (Arr (cs @ [c] @ ds))"]) auto
  have tr: "\<not> isMediaBlock (Block ''tool_result'' z)" for z
    by (simp add: isMediaBlock_def isImageBlock_def isVideoBlock_def)
  have str: "contentHasMedia (Arr (xs @ [Block ''tool_result'' (Str s)] @ ys)) =
      contentHasMedia (Arr (xs @ ys))"
    unfolding contentHasMedia_Arr using tr by auto
  have single: "\<not> contentHasMedia (Arr [Block ''tool_result'' (Str s)])"
    unfolding contentHasMedia_Arr using tr by auto
  show ?thesis
    using img nested str single
    by (simp add: detectMedia_single selectModel_def)
qed

theorem tool_result_media_detection_witness:
  "detectMedia [\<lparr>msg_role = ''user'', msg_content =
       Arr [Block ''text'' Absent,
            Block ''tool_result'' (Arr [Block ''text'' Absent, Block ''video'' Absent])]\<rparr>] \<and>
   fst (selectModel
     \<lparr>endpoint_mode = ''anthropic'', endpoint_useAnthropic = True, models_text = ''glm-4.7'',
      models_vision = ''glm-4.6v'', defaultModel = ''glm-4.7'', visionModel = ''glm-4.6v'',
      webSearch_enabled = True, maxIterations = 15, maxConsecutiveInternal = 10\<rparr>
     [\<lparr>msg_role = ''user'', msg_content =
       Arr [Block ''text'' Absent,
            Block ''tool_result'' (Arr [Block ''text'' Absent, Block ''video'' Absent])]\<rparr>]) = ''glm-4.6v''"
proof -
  have v: "isMediaBlock (Block ''video'' Absent)"
    by (simp add: isMediaBlock_def isVideoBlock_def)
  note t = tool_result_media_detection [where c = "Block ''video'' Absent" and r = "''user''"
      and xs = "[Block ''text'' Absent]" and cs = "[Block ''text'' Absent]" and ds = "[]"
      and ys = "[]" and s = "''done''" and cfg =
      "\<lparr>endpoint_mode = ''anthropic'', endpoint_useAnthropic = True, models_text = ''glm-4.7'',
        models_vision = ''glm-4.6v'', defaultModel = ''glm-4.7'', visionModel = ''glm-4.6v'',
        webSearch_enabled = True, maxIterations = 15, maxConsecutiveInternal = 10\<rparr>",
      THEN conjunct1, THEN mp, OF v]
  show ?thesis
    using t [THEN conjunct1] t [THEN conjunct2, THEN conjunct2]
    by (simp add: js_or_def)
qed


section \<open>Tool executor (src/tools/executor.js)\<close>

text \<open>
  The error classes of src/utils/errors.js that reach this development.
  \<open>ToolExecutionError\<close> carries the iteration count it is constructed with; its
  message is \<open>Tool execution loop exceeded N iterations\<close> for that count.
  \<open>ContextLimitError\<close> is imported by src/server.js from the errors module.
\<close>

datatype error =
    InvalidRequestError string
  | GlmApiError string nat
  | ContextLimitError string
  | ToolExecutionError nat
  | JsError string

record mcp =
  mcp_id :: string
  mcp_tools :: "string list option"

text \<open>\<open>findMcpForTool\<close> over the enabled servers of the registry, in order.\<close>

fun findMcpForTool :: "mcp list \<Rightarrow> string \<Rightarrow> string option" where
  "findMcpForTool [] toolName = None"
| "findMcpForTool (m # ms) toolName =
     (case mcp_tools m of
        None \<Rightarrow> findMcpForTool ms toolName
      | Some ts \<Rightarrow> if toolName \<in> set ts then Some (mcp_id m) else findMcpForTool ms toolName)"

definition CLAUDE_TOOL_NAMES :: "string list" where
  "CLAUDE_TOOL_NAMES =
     [''WebSearch'', ''WebFetch'', ''websearch'', ''webfetch'', ''Websearch'', ''Webfetch'']"

definition isClaudeTool :: "string \<Rightarrow> bool" where
  "isClaudeTool toolName \<longleftrightarrow> toolName \<in> set CLAUDE_TOOL_NAMES"

definition shouldHandleInternally :: "config \<Rightarrow> mcp list \<Rightarrow> string \<Rightarrow> bool" where
  "shouldHandleInternally cfg mcps toolName =
     (if findMcpForTool mcps toolName \<noteq> None then True
      else if \<not> webSearch_enabled cfg then False
      else if isClaudeTool toolName then True
      else isOurTool toolName)"

record glm_message =
  gm_role :: string
  gm_content :: "string option"
  gm_tool_calls :: "tool_call list option"
  gm_tool_call_id :: "string option"

record glm_request =
  req_model :: string
  req_messages :: "glm_message list"
  req_tools :: "string list option"
  req_tool_choice :: "string option"

record assistant_message =
  am_content :: "string option"
  am_tool_calls :: "tool_call list"

text \<open>
  A backend response: its \<open>id\<close> and \<open>choices?.[0]?.message\<close> (\<open>None\<close> when the
  response has no first choice or the choice no message).
\<close>

record glm_response =
  resp_id :: string
  resp_message :: "assistant_message option"

text \<open>
  The collaborators of the loop. \<open>'w\<close> is the state of the outside world, which a
  backend call reads and changes; \<open>'j\<close> is a parsed JSON value. A tool backend call
  returns its result text (\<open>Inr\<close>) or throws with a message (\<open>Inl\<close>);
  \<open>json_parse\<close> is \<open>JSON.parse\<close> with the message of its SyntaxError. The tool
  calls of one round run concurrently; they read the world and their effect on it is
  not modelled.
\<close>

record ('w, 'j) tool_backend =
  json_parse :: "string \<Rightarrow> string + 'j"
  callCustomMcpTool :: "'w \<Rightarrow> string \<Rightarrow> string \<Rightarrow> 'j \<Rightarrow> string + string"
  callMcpTool_search :: "'w \<Rightarrow> 'j \<Rightarrow> string + string"
  callMcpTool_reader :: "'w \<Rightarrow> 'j \<Rightarrow> string + string"

record ('w, 'j) env =
  env_config :: config
  env_mcps :: "mcp list"
  env_tools :: "('w, 'j) tool_backend"
  callGlmFn :: "'w \<Rightarrow> glm_request \<Rightarrow> (error + glm_response) \<times> 'w"

definition executeTool :: "('w, 'j) env \<Rightarrow> 'w \<Rightarrow> tool_call \<Rightarrow> string + string" where
  "executeTool env w toolCall =
     (let originalName = tc_name toolCall;
          argsString = tc_arguments toolCall;
          name = getCanonicalToolName originalName
      in case json_parse (env_tools env) argsString of
           Inl parseError \<Rightarrow> Inr (''Error: Invalid JSON in tool arguments: '' @ parseError)
         | Inr args \<Rightarrow>
             (case findMcpForTool (env_mcps env) originalName of
                Some mcpId \<Rightarrow> callCustomMcpTool (env_tools env) w mcpId originalName args
              | None \<Rightarrow>
                  if name = JString ''web_search'' then callMcpTool_search (env_tools env) w args
                  else if name = JString ''web_reader'' then callMcpTool_reader (env_tools env) w args
                  else Inr (''Error: Unknown tool '' @ originalName)))"

text \<open>
  One entry of \<open>Promise.allSettled(...)\<close> mapped to its result string: the value of a
  fulfilled call, or \<open>Error: \<close> and the rejection's message.
\<close>

definition settled_result :: "string + string \<Rightarrow> string" where
  "settled_result r =
     (case r of
        Inr v \<Rightarrow> v
      | Inl reason \<Rightarrow> ''Error: '' @ (if reason = [] then ''Tool execution failed'' else reason))"

definition tool_results :: "('w, 'j) env \<Rightarrow> 'w \<Rightarrow> tool_call list \<Rightarrow> string list" where
  "tool_results env w ourCalls = map (\<lambda>tc. settled_result (executeTool env w tc)) ourCalls"

text \<open>The messages pushed onto the history after one round of internal tool calls.\<close>

definition history_entries :: "assistant_message \<Rightarrow> tool_call list \<Rightarrow> string list \<Rightarrow> glm_message list" where
  "history_entries assistantMessage ourCalls results =
     \<lparr>gm_role = ''assistant'',
      gm_content = (case am_content assistantMessage of Some [] \<Rightarrow> None | c \<Rightarrow> c),
      gm_tool_calls = Some ourCalls, gm_tool_call_id = None\<rparr> #
     map (\<lambda>i. \<lparr>gm_role = ''tool'', gm_content = Some (results ! i), gm_tool_calls = None,
               gm_tool_call_id = Some (tc_id (ourCalls ! i))\<rparr>) [0 ..< length ourCalls]"

definition is_our_call :: "('w, 'j) env \<Rightarrow> tool_call \<Rightarrow> bool" where
  "is_our_call env tc =
     (let name = tc_name tc in
      if shouldHandleInternally (env_config env) (env_mcps env) name then True
      else findMcpForTool (env_mcps env) name \<noteq> None)"

definition is_client_call :: "('w, 'j) env \<Rightarrow> tool_call \<Rightarrow> bool" where
  "is_client_call env tc =
     (let name = tc_name tc in
      if shouldHandleInternally (env_config env) (env_mcps env) name then False
      else findMcpForTool (env_mcps env) name = None)"

definition maxConsecutiveInternal_of :: "config \<Rightarrow> nat" where
  "maxConsecutiveInternal_of cfg =
     (if maxConsecutiveInternal cfg = 0 then 10 else maxConsecutiveInternal cfg)"

type_synonym call_log = "(glm_request \<times> (error + glm_response)) list"

text \<open>
  The body of the \<open>while (iteration < maxIterations)\<close> loop of
  \<open>executeWithTools\<close>: one backend call and what follows it. It either returns
  from the function (a response, or the error a backend call threw) or goes on to
  the next iteration with the history extended; the streak counter is then one
  higher, since only an internal-only round continues. The log holds the backend
  calls made so far, each request with what the backend answered.
\<close>

datatype 'w round_outcome =
    Return "error + glm_response" 'w call_log
  | Continue "glm_message list" 'w call_log

definition executeWithTools_round ::
  "('w, 'j) env \<Rightarrow> glm_request \<Rightarrow> nat \<Rightarrow> glm_message list \<Rightarrow> 'w \<Rightarrow> call_log
     \<Rightarrow> 'w round_outcome" where
  "executeWithTools_round env glmRequest consecutiveInternalCalls messages w log =
     (case callGlmFn env w (glmRequest\<lparr>req_messages := messages\<rparr>) of
        (Inl e, w') \<Rightarrow> Return (Inl e) w' (log @ [(glmRequest\<lparr>req_messages := messages\<rparr>, Inl e)])
      | (Inr response, w') \<Rightarrow>
          (let log' = log @ [(glmRequest\<lparr>req_messages := messages\<rparr>, Inr response)] in
           case resp_message response of
             None \<Rightarrow> Return (Inr response) w' log'
           | Some assistantMessage \<Rightarrow>
               (let toolCalls = am_tool_calls assistantMessage;
                    ourCalls = filter (is_our_call env) toolCalls;
                    clientCalls = filter (is_client_call env) toolCalls;
                    results = tool_results env w' ourCalls;
                    messages' = messages @ history_entries assistantMessage ourCalls results
                in
                if length toolCalls = 0 then Return (Inr response) w' log'
                else if length ourCalls = 0 then Return (Inr response) w' log'
                else if length clientCalls = 0 \<and>
                        consecutiveInternalCalls + 1 > maxConsecutiveInternal_of (env_config env) then
                  (case callGlmFn env w'
                          (glmRequest\<lparr>req_messages := messages', req_tools := None,
                             req_tool_choice := None\<rparr>) of
                     (finalResponse, w'') \<Rightarrow>
                       Return finalResponse w''
                         (log' @ [(glmRequest\<lparr>req_messages := messages', req_tools := None,
                                     req_tool_choice := None\<rparr>, finalResponse)]))
                else if length clientCalls > 0 then
                  Return (Inr (response\<lparr>resp_message :=
                            Some (assistantMessage\<lparr>am_tool_calls := clientCalls\<rparr>)\<rparr>)) w' log'
                else Continue messages' w' log')))"

function executeWithTools_loop ::
  "('w, 'j) env \<Rightarrow> glm_request \<Rightarrow> nat \<Rightarrow> nat \<Rightarrow> glm_message list \<Rightarrow> 'w \<Rightarrow> call_log
     \<Rightarrow> (error + glm_response) \<times> 'w \<times> call_log" where
  "executeWithTools_loop env glmRequest iteration consecutiveInternalCalls messages w log =
     (if iteration < maxIterations (env_config env) then
        (case executeWithTools_round env glmRequest consecutiveInternalCalls messages w log of
           Return result w' log' \<Rightarrow> (result, w', log')
         | Continue messages' w' log' \<Rightarrow>
             executeWithTools_loop env glmRequest (iteration + 1)
               (consecutiveInternalCalls + 1) messages' w' log')
      else (Inl (ToolExecutionError (maxIterations (env_config env))), w, log))"
  by pat_completeness auto
termination
  by (relation "measure (\<lambda>(env, glmRequest, iteration, c, messages, w, log).
        maxIterations (env_config env) - iteration)") auto

definition executeWithTools ::
  "('w, 'j) env \<Rightarrow> glm_request \<Rightarrow> 'w \<Rightarrow> (error + glm_response) \<times> 'w \<times> call_log" where
  "executeWithTools env glmRequest w =
     executeWithTools_loop env glmRequest 0 0 (req_messages glmRequest) w []"


text \<open>
  A backend that answers every call with exactly one internal-only tool call.
\<close>

definition internal_only_backend :: "('w, 'j) env \<Rightarrow> bool" where
  "internal_only_backend env \<longleftrightarrow>
     (\<forall>w r. \<exists>response w' assistantMessage tc.
        callGlmFn env w r = (Inr response, w') \<and>
        resp_message response = Some assistantMessage \<and>
        am_tool_calls assistantMessage = [tc] \<and>
        is_our_call env tc)"

text \<open>
  A concrete such setting: web search enabled, \<open>maxConsecutiveInternal = 1\<close>, a
  backend that always proposes one \<open>web_search\<close> call, a JSON parser that accepts
  only \<open>{}\<close>, a search server that answers and a reader server that throws.
\<close>

definition demo_config :: "nat \<Rightarrow> config" where
  "demo_config n =
     \<lparr>endpoint_mode = ''openai'', endpoint_useAnthropic = False, models_text = ''glm-4.7'',
      models_vision = ''glm-4.6v'', defaultModel = ''glm-4.7'', visionModel = ''glm-4.6v'',
      webSearch_enabled = True, maxIterations = n, maxConsecutiveInternal = 1\<rparr>"

definition search_call :: tool_call where
  "search_call = \<lparr>tc_id = ''call_1'', tc_name = ''web_search'', tc_arguments = ''{}''\<rparr>"

definition search_response :: glm_response where
  "search_response =
     \<lparr>resp_id = ''resp'',
      resp_message = Some \<lparr>am_content = None, am_tool_calls = [search_call]\<rparr>\<rparr>"

definition demo_tools :: "(nat, string) tool_backend" where
  "demo_tools =
     \<lparr>json_parse = (\<lambda>s. if s = ''{}'' then Inr s else Inl ''Unexpected token''),
      callCustomMcpTool = (\<lambda>w i n j. Inr ''ok''),
      callMcpTool_search = (\<lambda>w j. Inr ''results''),
      callMcpTool_reader = (\<lambda>w j. Inl ''fetch failed'')\<rparr>"

definition demo_env :: "nat \<Rightarrow> (nat, string) env" where
  "demo_env n =
     \<lparr>env_config = demo_config n, env_mcps = [], env_tools = demo_tools,
      callGlmFn = (\<lambda>w r. (Inr search_response, Suc w))\<rparr>"

definition demo_request :: glm_request where
  "demo_request =
     \<lparr>req_model = ''glm-4.7'',
      req_messages = [\<lparr>gm_role = ''user'', gm_content = Some ''hi'', gm_tool_calls = None,
                       gm_tool_call_id = None\<rparr>],
      req_tools = Some [''web_search''], req_tool_choice = Some ''auto''\<rparr>"

definition demo_history :: "glm_message list" where
  "demo_history =
     history_entries \<lparr>am_content = None, am_tool_calls = [search_call]\<rparr> [search_call] [''results'']"

text \<open>
  A setting with failing tool calls: the backend first proposes a \<open>web_search\<close>
  call with malformed arguments and a \<open>WebFetch\<close> call, whose server throws, and
  answers the next request with plain text.
\<close>

definition bad_json_call :: tool_call where
  "bad_json_call = \<lparr>tc_id = ''call_2'', tc_name = ''web_search'', tc_arguments = ''{bad''\<rparr>"

definition fetch_call :: tool_call where
  "fetch_call = \<lparr>tc_id = ''call_3'', tc_name = ''WebFetch'', tc_arguments = ''{}''\<rparr>"

definition failing_response :: glm_response where
  "failing_response =
     \<lparr>resp_id = ''resp_1'',
      resp_message = Some \<lparr>am_content = None, am_tool_calls = [bad_json_call, fetch_call]\<rparr>\<rparr>"

definition answer_response :: glm_response where
  "answer_response =
     \<lparr>resp_id = ''resp_2'',
      resp_message = Some \<lparr>am_content = Some ''done'', am_tool_calls = []\<rparr>\<rparr>"

definition failing_env :: "(nat, string) env" where
  "failing_env =
     \<lparr>env_config = demo_config 15, env_mcps = [], env_tools = demo_tools,
      callGlmFn = (\<lambda>w r. (if w = 0 then Inr failing_response else Inr answer_response, Suc w))\<rparr>"

definition failing_history :: "glm_message list" where
  "failing_history =
     [\<lparr>gm_role = ''assistant'', gm_content = None,
       gm_tool_calls = Some [bad_json_call, fetch_call], gm_tool_call_id = None\<rparr>,
      \<lparr>gm_role = ''tool'',
       gm_content = Some ''Error: Invalid JSON in tool arguments: Unexpected token'',
       gm_tool_calls = None, gm_tool_call_id = Some ''call_2''\<rparr>,
      \<lparr>gm_role = ''tool'', gm_content = Some ''Error: fetch failed'',
       gm_tool_calls = None, gm_tool_call_id = Some ''call_3''\<rparr>]"

declare executeWithTools_loop.simps [simp del]

lemma is_client_call_iff: "is_client_call env tc \<longleftrightarrow> \<not> is_our_call env tc"
  by (simp add: is_client_call_def is_our_call_def Let_def)

lemma round_log_Return:
  "executeWithTools_round env req c msgs w log = Return res w' log' \<Longrightarrow>
     length log' \<le> length log + 2"
  by (auto simp: executeWithTools_round_def Let_def
      split: prod.splits sum.splits option.splits if_splits)

lemma round_log_Continue:
  "executeWithTools_round env req c msgs w log = Continue msgs' w' log' \<Longrightarrow>
     length log' = length log + 1"
  by (auto simp: executeWithTools_round_def Let_def
      split: prod.splits sum.splits option.splits if_splits)

lemma loop_exhausted:
  "\<not> it < maxIterations (env_config env) \<Longrightarrow>
   executeWithTools_loop env req it c msgs w log =
     (Inl (ToolExecutionError (maxIterations (env_config env))), w, log)"
  by (subst executeWithTools_loop.simps) simp

lemma loop_Return:
  "it < maxIterations (env_config env) \<Longrightarrow>
   executeWithTools_round env req c msgs w log = Return res w' log' \<Longrightarrow>
   executeWithTools_loop env req it c msgs w log = (res, w', log')"
  by (subst executeWithTools_loop.simps) simp

lemma loop_Continue:
  "it < maxIterations (env_config env) \<Longrightarrow>
   executeWithTools_round env req c msgs w log = Continue msgs' w' log' \<Longrightarrow>
   executeWithTools_loop env req it c msgs w log =
     executeWithTools_loop env req (it + 1) (c + 1) msgs' w' log'"
  by (subst executeWithTools_loop.simps) simp

text \<open>
  The loop makes at most \<open>maxIterations + 1\<close> backend calls, whatever the backend
  does: one per iteration and the forced final call.
\<close>

lemma loop_calls_bound:
  "length (snd (snd (executeWithTools_loop env req it c msgs w log)))
     \<le> length log + (maxIterations (env_config env) - it) + 1"
proof (induction env req it c msgs w log rule: executeWithTools_loop.induct)
  case (1 env glmRequest iteration c messages w log)
  show ?case
  proof (cases "iteration < maxIterations (env_config env)")
    case False
    then show ?thesis by (simp add: loop_exhausted)
  next
    case True
    show ?thesis
    proof (cases "executeWithTools_round env glmRequest c messages w log")
      case (Return res w' log')
      then show ?thesis
        using True round_log_Return [OF Return] by (simp add: loop_Return)
    next
      case (Continue msgs' w' log')
      then show ?thesis
        using True round_log_Continue [OF Continue] "1.IH" [OF True Continue]
        by (simp add: loop_Continue)
    qed
  qed
qed

lemma round_internal_only:
  assumes "callGlmFn env w (req\<lparr>req_messages := msgs\<rparr>) = (Inr resp, w')"
    and "resp_message resp = Some am" and "am_tool_calls am = [tc]" and "is_our_call env tc"
  shows "executeWithTools_round env req c msgs w log =
     (if c + 1 > maxConsecutiveInternal_of (env_config env) then
        (case callGlmFn env w'
                (req\<lparr>req_messages := msgs @ history_entries am [tc] (tool_results env w' [tc]),
                   req_tools := None, req_tool_choice := None\<rparr>) of
           (finalResponse, w'') \<Rightarrow>
             Return finalResponse w''
               (log @ [(req\<lparr>req_messages := msgs\<rparr>, Inr resp),
                       (req\<lparr>req_messages := msgs @ history_entries am [tc] (tool_results env w' [tc]),
                          req_tools := None, req_tool_choice := None\<rparr>, finalResponse)]))
      else Continue (msgs @ history_entries am [tc] (tool_results env w' [tc])) w'
             (log @ [(req\<lparr>req_messages := msgs\<rparr>, Inr resp)]))"
  using assms
  by (simp add: executeWithTools_round_def Let_def is_client_call_iff split: prod.splits)

text \<open>
  What the loop does against an internal-only backend with
  \<open>maxConsecutiveInternal = 1\<close>: the first round is within the streak limit and
  continues, the second exceeds it and forces the final call.
\<close>

lemma internal_only_run:
  assumes maxc: "maxConsecutiveInternal (env_config env) = 1"
    and backend: "internal_only_backend env"
    and run: "executeWithTools env glmRequest w = (result, w', log)"
  shows "length log \<le> 3 \<and>
    (2 \<le> maxIterations (env_config env) \<longrightarrow>
       length log = 3 \<and> result = snd (log ! 2) \<and> (\<exists>response. result = Inr response) \<and>
       req_tools (fst (log ! 0)) = req_tools glmRequest \<and>
       req_tools (fst (log ! 1)) = req_tools glmRequest \<and>
       req_tools (fst (log ! 2)) = None \<and> req_tool_choice (fst (log ! 2)) = None) \<and>
    (maxIterations (env_config env) < 2 \<longrightarrow>
       length log = maxIterations (env_config env) \<and>
       result = Inl (ToolExecutionError (maxIterations (env_config env))))"
proof -
  let ?max = "maxIterations (env_config env)"
  let ?msgs = "req_messages glmRequest"
  have mc: "maxConsecutiveInternal_of (env_config env) = 1"
    using maxc by (simp add: maxConsecutiveInternal_of_def)
  have loop0: "executeWithTools_loop env glmRequest 0 0 ?msgs w [] = (result, w', log)"
    using run by (simp add: executeWithTools_def)
  show ?thesis
  proof (cases "0 < ?max")
    case False
    then show ?thesis
      using loop0 loop_exhausted [of 0 env glmRequest 0 ?msgs w "[]"] by auto
  next
    case pos: True
    obtain r1 w1 am1 tc1 where
      c1: "callGlmFn env w (glmRequest\<lparr>req_messages := ?msgs\<rparr>) = (Inr r1, w1)"
      and m1: "resp_message r1 = Some am1" "am_tool_calls am1 = [tc1]" "is_our_call env tc1"
      using backend unfolding internal_only_backend_def by blast
    let ?msgs1 = "?msgs @ history_entries am1 [tc1] (tool_results env w1 [tc1])"
    let ?log1 = "[(glmRequest\<lparr>req_messages := ?msgs\<rparr>, Inr r1 :: error + glm_response)]"
    have round1: "executeWithTools_round env glmRequest 0 ?msgs w [] = Continue ?msgs1 w1 ?log1"
      using round_internal_only [OF c1 m1, where c = 0 and log = "[]"] mc by simp
    have loop1: "executeWithTools_loop env glmRequest 1 1 ?msgs1 w1 ?log1 = (result, w', log)"
      using loop_Continue [OF pos round1] loop0 by simp
    show ?thesis
    proof (cases "1 < ?max")
      case False
      then show ?thesis
        using pos loop1 loop_exhausted [of 1 env glmRequest 1 ?msgs1 w1 ?log1] by auto
    next
      case two: True
      obtain r2 w2 am2 tc2 where
        c2: "callGlmFn env w1 (glmRequest\<lparr>req_messages := ?msgs1\<rparr>) = (Inr r2, w2)"
        and m2: "resp_message r2 = Some am2" "am_tool_calls am2 = [tc2]" "is_our_call env tc2"
        using backend unfolding internal_only_backend_def by blast
      let ?msgs2 = "?msgs1 @ history_entries am2 [tc2] (tool_results env w2 [tc2])"
      let ?r3 = "glmRequest\<lparr>req_messages := ?msgs2, req_tools := None, req_tool_choice := None\<rparr>"
      obtain r3 w3 where c3: "callGlmFn env w2 ?r3 = (Inr r3, w3)"
        using backend unfolding internal_only_backend_def by blast
      have round2: "executeWithTools_round env glmRequest 1 ?msgs1 w1 ?log1 =
          Return (Inr r3) w3 (?log1 @ [(glmRequest\<lparr>req_messages := ?msgs1\<rparr>, Inr r2), (?r3, Inr r3)])"
        using round_internal_only [OF c2 m2, where c = 1 and log = ?log1] mc c3 by simp
      have "(result, w', log) =
          (Inr r3, w3, ?log1 @ [(glmRequest\<lparr>req_messages := ?msgs1\<rparr>, Inr r2), (?r3, Inr r3)])"
        using loop_Return [OF two round2] unfolding loop1 by simp
      then show ?thesis
        using two by simp
    qed
  qed
qed

lemma search_call_internal: "is_our_call (demo_env n) search_call"
  by (simp add: is_our_call_def demo_env_def demo_config_def search_call_def
      shouldHandleInternally_def isClaudeTool_def CLAUDE_TOOL_NAMES_def isOurTool_def
      OUR_TOOL_NAMES_def)

lemma demo_backend: "internal_only_backend (demo_env n)"
  unfolding internal_only_backend_def
proof (intro allI)
  fix w r
  have "callGlmFn (demo_env n) w r = (Inr search_response, Suc w)"
    by (simp add: demo_env_def)
  moreover have "resp_message search_response =
      Some \<lparr>am_content = None, am_tool_calls = [search_call]\<rparr>"
    by (simp add: search_response_def)
  ultimately show "\<exists>response w' assistantMessage tc.
        callGlmFn (demo_env n) w r = (Inr response, w') \<and>
        resp_message response = Some assistantMessage \<and>
        am_tool_calls assistantMessage = [tc] \<and> is_our_call (demo_env n) tc"
    using search_call_internal by fastforce
qed

lemma demo_max: "maxIterations (env_config (demo_env n)) = n"
  by (simp add: demo_env_def demo_config_def)

lemma demo_round:
  "executeWithTools_round (demo_env n) demo_request c msgs w log =
     (if c + 1 > 1 then
        Return (Inr search_response) (Suc (Suc w))
          (log @ [(demo_request\<lparr>req_messages := msgs\<rparr>, Inr search_response),
                  (demo_request\<lparr>req_messages := msgs @ demo_history,
                     req_tools := None, req_tool_choice := None\<rparr>, Inr search_response)])
      else Continue (msgs @ demo_history) (Suc w)
             (log @ [(demo_request\<lparr>req_messages := msgs\<rparr>, Inr search_response)]))"
proof -
  have c: "callGlmFn (demo_env n) w' r = (Inr search_response, Suc w')" for w' r
    by (simp add: demo_env_def)
  have m: "resp_message search_response = Some \<lparr>am_content = None, am_tool_calls = [search_call]\<rparr>"
    by (simp add: search_response_def)
  have t: "tool_results (demo_env n) w' [search_call] = [''results'']" for w'
    by (simp add: tool_results_def executeTool_def settled_result_def demo_env_def demo_tools_def
        search_call_def getCanonicalToolName_def OUR_TOOL_NAMES_def)
  have mc: "maxConsecutiveInternal_of (env_config (demo_env n)) = 1"
    by (simp add: maxConsecutiveInternal_of_def demo_env_def demo_config_def)
  show ?thesis
    using round_internal_only [OF c m _ search_call_internal,
        where c = c and log = log and msgs = msgs]
    by (simp add: c t mc demo_history_def)
qed

lemma demo_first_round:
  "0 < n \<Longrightarrow>
   executeWithTools_loop (demo_env n) demo_request 0 0 (req_messages demo_request) w [] =
   executeWithTools_loop (demo_env n) demo_request 1 1 (req_messages demo_request @ demo_history)
     (Suc w) [(demo_request, Inr search_response)]"
  by (subst executeWithTools_loop.simps) (simp add: demo_round demo_max)

text \<open>
  C2 (as stated) fails: with \<open>maxConsecutiveInternal = 1\<close> and the default cap of 15
  iterations, the loop makes three backend calls, not at most two.
\<close>

theorem tool_loop_three_calls:
  "executeWithTools (demo_env 15) demo_request 0 =
    (Inr search_response, 3,
     [(demo_request, Inr search_response),
      (demo_request\<lparr>req_messages := req_messages demo_request @ demo_history\<rparr>,
       Inr search_response),
      (demo_request\<lparr>req_messages := req_messages demo_request @ demo_history @ demo_history,
         req_tools := None, req_tool_choice := None\<rparr>, Inr search_response)]) \<and>
   \<not> length (snd (snd (executeWithTools (demo_env 15) demo_request 0))) \<le> 2"
proof -
  have s2: "executeWithTools_loop (demo_env 15) demo_request 1 1
        (req_messages demo_request @ demo_history) (Suc 0) [(demo_request, Inr search_response)] =
      (Inr search_response, 3,
       [(demo_request, Inr search_response),
        (demo_request\<lparr>req_messages := req_messages demo_request @ demo_history\<rparr>,
         Inr search_response),
        (demo_request\<lparr>req_messages := req_messages demo_request @ demo_history @ demo_history,
           req_tools := None, req_tool_choice := None\<rparr>, Inr search_response)])"
    by (subst executeWithTools_loop.simps) (simp add: demo_round demo_max)
  have s1: "executeWithTools (demo_env 15) demo_request 0 =
      executeWithTools_loop (demo_env 15) demo_request 1 1
        (req_messages demo_request @ demo_history) (Suc 0) [(demo_request, Inr search_response)]"
    unfolding executeWithTools_def by (rule demo_first_round) simp
  show ?thesis
    unfolding s1 s2 by simp
qed

text \<open>
  C2 (amended). With \<open>maxConsecutiveInternal = 1\<close> and a backend that answers every
  call with exactly one internal-only tool call, \<open>executeWithTools\<close> terminates
  after at most three backend calls and at most \<open>maxIterations + 1\<close>. With an
  iteration cap of at least 2 it makes exactly three: two normal calls carrying the
  request's tools, then one final call with tools and tool choice removed, whose
  answer it returns. With a cap below 2 it makes as many calls as the cap allows and
  ends in the cap's \<open>ToolExecutionError\<close>.
\<close>

theorem tool_loop_convergence:
  assumes "maxConsecutiveInternal (env_config env) = 1"
    and "internal_only_backend env"
    and "executeWithTools env glmRequest w = (result, w', log)"
  shows "length log \<le> 3 \<and> length log \<le> maxIterations (env_config env) + 1 \<and>
    (2 \<le> maxIterations (env_config env) \<longrightarrow>
       length log = 3 \<and> result = snd (log ! 2) \<and> (\<exists>response. result = Inr response) \<and>
       req_tools (fst (log ! 0)) = req_tools glmRequest \<and>
       req_tools (fst (log ! 1)) = req_tools glmRequest \<and>
       req_tools (fst (log ! 2)) = None \<and> req_tool_choice (fst (log ! 2)) = None) \<and>
    (maxIterations (env_config env) < 2 \<longrightarrow>
       length log = maxIterations (env_config env) \<and>
       result = Inl (ToolExecutionError (maxIterations (env_config env))))"
proof -
  have "length log \<le> maxIterations (env_config env) + 1"
    using loop_calls_bound [of env glmRequest 0 0 "req_messages glmRequest" w "[]"] assms(3)
    by (simp add: executeWithTools_def)
  then show ?thesis
    using internal_only_run [OF assms] by blast
qed

theorem tool_loop_convergence_witness:
  "maxConsecutiveInternal (env_config (demo_env 2)) = 1 \<and>
   internal_only_backend (demo_env 2) \<and>
   length (snd (snd (executeWithTools (demo_env 2) demo_request 0))) = 3 \<and>
   req_tools (fst (snd (snd (executeWithTools (demo_env 2) demo_request 0)) ! 2)) = None"
proof -
  have a: "maxConsecutiveInternal (env_config (demo_env 2)) = 1"
    by (simp add: demo_env_def demo_config_def)
  have b: "executeWithTools (demo_env 2) demo_request 0 =
      (fst (executeWithTools (demo_env 2) demo_request 0),
       fst (snd (executeWithTools (demo_env 2) demo_request 0)),
       snd (snd (executeWithTools (demo_env 2) demo_request 0)))"
    by simp
  show ?thesis
    using a demo_backend [of 2] tool_loop_convergence [OF a demo_backend b]
    by (simp add: demo_max)
qed


lemma round_Return_Inl:
  "executeWithTools_round env req c msgs w log = Return (Inl e) w' log' \<Longrightarrow>
     log' \<noteq> [] \<and> snd (last log') = Inl e"
  by (auto simp: executeWithTools_round_def Let_def
      split: prod.splits sum.splits option.splits if_splits)

text \<open>
  An error that leaves the loop is the answer of the last backend call made, or the
  error of the iteration cap, raised after one backend call per iteration.
\<close>

lemma loop_Inl:
  "executeWithTools_loop env req it c msgs w log = (Inl e, w', log') \<Longrightarrow>
     (log' \<noteq> [] \<and> snd (last log') = Inl e) \<or>
     (e = ToolExecutionError (maxIterations (env_config env)) \<and>
      length log' = length log + (maxIterations (env_config env) - it))"
proof (induction env req it c msgs w log rule: executeWithTools_loop.induct)
  case (1 env glmRequest iteration c messages w log)
  show ?case
  proof (cases "iteration < maxIterations (env_config env)")
    case False
    then show ?thesis using "1.prems" by (simp add: loop_exhausted)
  next
    case True
    show ?thesis
    proof (cases "executeWithTools_round env glmRequest c messages w log")
      case (Return res w1 log1)
      then show ?thesis
        using True "1.prems" round_Return_Inl [of env glmRequest c messages w log e w1 log1]
        by (simp add: loop_Return)
    next
      case (Continue msgs1 w1 log1)
      have "(log' \<noteq> [] \<and> snd (last log') = Inl e) \<or>
          (e = ToolExecutionError (maxIterations (env_config env)) \<and>
           length log' = length log1 + (maxIterations (env_config env) - (iteration + 1)))"
        using True "1.prems" "1.IH" [OF True Continue] Continue by (simp add: loop_Continue)
      then show ?thesis
        using True round_log_Continue [OF Continue] by auto
    qed
  qed
qed

lemma round_Continue_history:
  "executeWithTools_round env req c msgs w log = Continue msgs' w' log' \<Longrightarrow>
     \<exists>am calls. calls \<noteq> [] \<and> msgs' = msgs @ history_entries am calls (tool_results env w' calls)"
  by (auto simp: executeWithTools_round_def Let_def
      split: prod.splits sum.splits option.splits if_splits)

lemma history_entries_nth:
  "i < length calls \<Longrightarrow>
   history_entries am calls results ! Suc i =
     \<lparr>gm_role = ''tool'', gm_content = Some (results ! i), gm_tool_calls = None,
      gm_tool_call_id = Some (tc_id (calls ! i))\<rparr>"
  by (simp add: history_entries_def)

text \<open>
  A round whose tool calls are all internal and within the streak limit goes on to
  the next iteration with the results in the history, whatever the tool calls did.
\<close>

lemma round_all_internal:
  assumes "callGlmFn env w (req\<lparr>req_messages := msgs\<rparr>) = (Inr resp, w1)"
    and "resp_message resp = Some am" and "am_tool_calls am \<noteq> []"
    and "list_all (is_our_call env) (am_tool_calls am)"
    and "c + 1 \<le> maxConsecutiveInternal_of (env_config env)"
  shows "executeWithTools_round env req c msgs w log =
     Continue (msgs @ history_entries am (am_tool_calls am) (tool_results env w1 (am_tool_calls am)))
       w1 (log @ [(req\<lparr>req_messages := msgs\<rparr>, Inr resp)])"
proof -
  have ours: "filter (is_our_call env) (am_tool_calls am) = am_tool_calls am"
    using assms(4) by (simp add: list_all_iff)
  have clients: "filter (is_client_call env) (am_tool_calls am) = []"
    using assms(4) by (simp add: list_all_iff is_client_call_iff)
  show ?thesis
    using assms(1,2,3,5)
    by (simp add: executeWithTools_round_def Let_def ours clients)
qed

lemma failing_calls_internal:
  "list_all (is_our_call failing_env) [bad_json_call, fetch_call]"
  by (simp add: is_our_call_def failing_env_def demo_config_def bad_json_call_def fetch_call_def
      shouldHandleInternally_def isClaudeTool_def CLAUDE_TOOL_NAMES_def isOurTool_def
      OUR_TOOL_NAMES_def)

lemma failing_second_round:
  "executeWithTools_round failing_env demo_request c msgs (Suc 0) log =
     Return (Inr answer_response) 2 (log @ [(demo_request\<lparr>req_messages := msgs\<rparr>, Inr answer_response)])"
  by (simp add: executeWithTools_round_def failing_env_def answer_response_def Let_def)

text \<open>
  C7. A failing internal tool call never aborts the exchange. Malformed JSON in the
  arguments makes \<open>executeTool\<close> return the text
  \<open>Error: Invalid JSON in tool arguments: ...\<close>; a call that throws is settled to
  \<open>Error: \<close> and its message; every call of a round gets exactly one result, and the
  round appends the assistant turn and one \<open>tool\<close> message per call, carrying that
  result, to the history and goes on, whatever the calls did. No failure of a tool
  call leaves the loop: when \<open>executeWithTools\<close> ends in an error, that error is
  the answer of the last backend call, or the loop-exceeded error of the iteration
  cap (for which the code uses its class \<open>ToolExecutionError\<close>) after one backend
  call per iteration.
\<close>

theorem tool_errors_nonfatal:
  "(json_parse (env_tools env) (tc_arguments tc) = Inl msg \<longrightarrow>
      executeTool env w tc = Inr (''Error: Invalid JSON in tool arguments: '' @ msg)) \<and>
   (executeTool env w tc = Inl reason \<longrightarrow>
      settled_result (executeTool env w tc) =
        ''Error: '' @ (if reason = [] then ''Tool execution failed'' else reason) \<and>
      prefix ''Error: '' (settled_result (executeTool env w tc))) \<and>
   length (tool_results env w calls) = length calls \<and>
   (\<forall>i < length calls.
      tool_results env w calls ! i = settled_result (executeTool env w (calls ! i)) \<and>
      history_entries am calls (tool_results env w calls) ! Suc i =
        \<lparr>gm_role = ''tool'', gm_content = Some (tool_results env w calls ! i),
         gm_tool_calls = None, gm_tool_call_id = Some (tc_id (calls ! i))\<rparr>) \<and>
   (callGlmFn env w (req\<lparr>req_messages := msgs\<rparr>) = (Inr response, w1) \<and>
    resp_message response = Some am \<and> am_tool_calls am \<noteq> [] \<and>
    list_all (is_our_call env) (am_tool_calls am) \<and>
    c + 1 \<le> maxConsecutiveInternal_of (env_config env) \<longrightarrow>
      executeWithTools_round env req c msgs w log =
        Continue
          (msgs @ history_entries am (am_tool_calls am) (tool_results env w1 (am_tool_calls am)))
          w1 (log @ [(req\<lparr>req_messages := msgs\<rparr>, Inr response)])) \<and>
   (executeWithTools_round env req c msgs w log = Continue msgs' w' log' \<longrightarrow>
      (\<exists>am' calls'. calls' \<noteq> [] \<and>
         msgs' = msgs @ history_entries am' calls' (tool_results env w' calls'))) \<and>
   (executeWithTools env req w = (Inl e, w', log') \<longrightarrow>
      (log' \<noteq> [] \<and> snd (last log') = Inl e) \<or>
      (e = ToolExecutionError (maxIterations (env_config env)) \<and>
       length log' = maxIterations (env_config env)))"
proof -
  have a: "json_parse (env_tools env) (tc_arguments tc) = Inl msg \<Longrightarrow>
      executeTool env w tc = Inr (''Error: Invalid JSON in tool arguments: '' @ msg)"
    by (simp add: executeTool_def)
  have b: "executeTool env w tc = Inl reason \<Longrightarrow>
      settled_result (executeTool env w tc) =
        ''Error: '' @ (if reason = [] then ''Tool execution failed'' else reason) \<and>
      prefix ''Error: '' (settled_result (executeTool env w tc))"
    by (simp add: settled_result_def)
  have c: "length (tool_results env w calls) = length calls"
    by (simp add: tool_results_def)
  have d: "i < length calls \<Longrightarrow>
      tool_results env w calls ! i = settled_result (executeTool env w (calls ! i))" for i
    by (simp add: tool_results_def)
  have f: "executeWithTools env req w = (Inl e, w', log') \<Longrightarrow>
      (log' \<noteq> [] \<and> snd (last log') = Inl e) \<or>
      (e = ToolExecutionError (maxIterations (env_config env)) \<and>
       length log' = maxIterations (env_config env))"
    unfolding executeWithTools_def
    using loop_Inl [of env req 0 0 "req_messages req" w "[]" e w' log'] by simp
  have g: "callGlmFn env w (req\<lparr>req_messages := msgs\<rparr>) = (Inr response, w1) \<and>
    resp_message response = Some am \<and> am_tool_calls am \<noteq> [] \<and>
    list_all (is_our_call env) (am_tool_calls am) \<and>
    c + 1 \<le> maxConsecutiveInternal_of (env_config env) \<Longrightarrow>
      executeWithTools_round env req c msgs w log =
        Continue
          (msgs @ history_entries am (am_tool_calls am) (tool_results env w1 (am_tool_calls am)))
          w1 (log @ [(req\<lparr>req_messages := msgs\<rparr>, Inr response)])"
    using round_all_internal [where env = env and w = w and req = req and msgs = msgs
        and resp = response and ?w1.0 = w1 and am = am and c = c and log = log] by blast
  show ?thesis
    using a b c d f g round_Continue_history [of env req c msgs w log msgs' w' log']
      history_entries_nth [of _ calls am "tool_results env w calls"]
    by blast
qed

theorem tool_errors_nonfatal_witness:
  "executeTool failing_env 1 bad_json_call
     = Inr ''Error: Invalid JSON in tool arguments: Unexpected token'' \<and>
   executeTool failing_env 1 fetch_call = Inl ''fetch failed'' \<and>
   tool_results failing_env 1 [bad_json_call, fetch_call]
     = [''Error: Invalid JSON in tool arguments: Unexpected token'', ''Error: fetch failed''] \<and>
   executeWithTools failing_env demo_request 0 =
     (Inr answer_response, 2,
      [(demo_request, Inr failing_response),
       (demo_request\<lparr>req_messages := req_messages demo_request @ failing_history\<rparr>,
        Inr answer_response)])"
proof -
  let ?am = "\<lparr>am_content = None, am_tool_calls = [bad_json_call, fetch_call]\<rparr>"
  have p: "json_parse (env_tools failing_env) (tc_arguments bad_json_call) = Inl ''Unexpected token''"
    by (simp add: failing_env_def demo_tools_def bad_json_call_def)
  have q: "executeTool failing_env 1 fetch_call = Inl ''fetch failed''"
    by (simp add: executeTool_def failing_env_def demo_tools_def fetch_call_def
        getCanonicalToolName_def js_get_def OUR_TOOL_NAMES_def TOOL_ALIASES_def)
  have call: "callGlmFn failing_env 0 (demo_request\<lparr>req_messages := req_messages demo_request\<rparr>) =
      (Inr failing_response, 1)"
    by (simp add: failing_env_def)
  have msg: "resp_message failing_response = Some ?am"
    by (simp add: failing_response_def)
  have streak: "0 + 1 \<le> maxConsecutiveInternal_of (env_config failing_env)"
    by (simp add: maxConsecutiveInternal_of_def failing_env_def demo_config_def)
  note t = tool_errors_nonfatal [where env = failing_env and tc = bad_json_call and w = 0
      and msg = "''Unexpected token''" and calls = "[bad_json_call, fetch_call]"
      and req = demo_request and msgs = "req_messages demo_request" and response = failing_response
      and ?w1.0 = 1 and am = ?am and c = 0 and log = "[]"]
  note u = tool_errors_nonfatal [where env = failing_env and tc = bad_json_call and w = 1
      and msg = "''Unexpected token''" and calls = "[bad_json_call, fetch_call]"]
  have r: "executeTool failing_env 1 bad_json_call =
      Inr ''Error: Invalid JSON in tool arguments: Unexpected token''"
    using u [THEN conjunct1] p by simp
  have "tool_results failing_env 1 [bad_json_call, fetch_call] ! 0 =
      settled_result (executeTool failing_env 1 ([bad_json_call, fetch_call] ! 0))"
    using u [THEN conjunct2, THEN conjunct2, THEN conjunct2, THEN conjunct1] by simp
  moreover have "tool_results failing_env 1 [bad_json_call, fetch_call] ! 1 =
      settled_result (executeTool failing_env 1 ([bad_json_call, fetch_call] ! 1))"
    using u [THEN conjunct2, THEN conjunct2, THEN conjunct2, THEN conjunct1] by simp
  moreover have "length (tool_results failing_env 1 [bad_json_call, fetch_call]) = 2"
    using u [THEN conjunct2, THEN conjunct2, THEN conjunct1] by simp
  ultimately have "tool_results failing_env 1 [bad_json_call, fetch_call] =
      [settled_result (executeTool failing_env 1 bad_json_call),
       settled_result (executeTool failing_env 1 fetch_call)]"
    by (simp add: list_eq_iff_nth_eq less_Suc_eq numeral_2_eq_2)
  then have results: "tool_results failing_env 1 [bad_json_call, fetch_call] =
      [''Error: Invalid JSON in tool arguments: Unexpected token'', ''Error: fetch failed'']"
    using r q by (simp add: settled_result_def)
  have hist: "history_entries ?am [bad_json_call, fetch_call]
      (tool_results failing_env 1 [bad_json_call, fetch_call]) = failing_history"
    unfolding results
    by (simp add: history_entries_def failing_history_def bad_json_call_def fetch_call_def
        upt_rec [of 0] upt_rec [of 1])
  have round1: "executeWithTools_round failing_env demo_request 0 (req_messages demo_request) 0 [] =
      Continue (req_messages demo_request @ failing_history) 1 [(demo_request, Inr failing_response)]"
    using t [THEN conjunct2, THEN conjunct2, THEN conjunct2, THEN conjunct2, THEN conjunct1]
      call msg streak failing_calls_internal hist
    by simp
  have pos: "0 < maxIterations (env_config failing_env)"
      and one: "0 + 1 < maxIterations (env_config failing_env)"
    by (simp_all add: failing_env_def demo_config_def)
  have run: "executeWithTools failing_env demo_request 0 =
      (Inr answer_response, 2,
       [(demo_request, Inr failing_response),
        (demo_request\<lparr>req_messages := req_messages demo_request @ failing_history\<rparr>,
         Inr answer_response)])"
    unfolding executeWithTools_def loop_Continue [OF pos round1]
    by (rule trans [OF loop_Return [OF one]]) (simp_all add: failing_second_round)
  show ?thesis
    using r q results run by simp
qed


section \<open>Context recovery (src/server.js, handleMessages)\<close>

record anthropic_request =
  ar_model :: string
  ar_messages :: "message list"
  ar_stream :: bool

text \<open>The body of the backend call that \<open>summarizeConversation\<close> makes. For the
  OpenAI-style and BigModel endpoints it is the fixed summary prompt over the
  conversation, transformed for the backend. For the native endpoint the prepared
  request is read off a promise that is not awaited, so the body sent is
  \<open>{stream: false}\<close> alone.\<close>

datatype summary_body = SummaryPrompt string "message list" | StreamFalseOnly

datatype server_call = PathCall string anthropic_request | SummaryCall string summary_body




function show_nat :: "nat \<Rightarrow> string" where
  "show_nat n =
     (if n < 10 then [''0123456789'' ! n]
      else show_nat (n div 10) @ [''0123456789'' ! (n mod 10)])"
  by pat_completeness auto
termination
  by (relation "measure id") auto

definition fallback_summary :: "nat \<Rightarrow> string" where
  "fallback_summary n =
     ''<summary>Previous conversation contained '' @ show_nat n @
     '' messages. Summary generation failed, but the conversation was compacted to continue.</summary>''"










definition is_PathCall :: "server_call \<Rightarrow> bool" where
  "is_PathCall c = (case c of PathCall _ _ \<Rightarrow> True | SummaryCall _ _ \<Rightarrow> False)"

definition is_SummaryCall :: "server_call \<Rightarrow> bool" where
  "is_SummaryCall c = (case c of PathCall _ _ \<Rightarrow> False | SummaryCall _ _ \<Rightarrow> True)"





declare show_nat.simps [simp del]

lemma fallback_summary_3:
  "fallback_summary 3 =
     ''<summary>Previous conversation contained 3 messages. Summary generation failed, but the conversation was compacted to continue.</summary>''"
  by (simp add: fallback_summary_def show_nat.simps [of 3])


lemma is_call_simps [simp]:
  "is_PathCall (PathCall endpoint request)"
  "\<not> is_PathCall (SummaryCall endpoint body)"
  "is_SummaryCall (SummaryCall endpoint body)"
  "\<not> is_SummaryCall (PathCall endpoint request)"
  by (simp_all add: is_PathCall_def is_SummaryCall_def)







section \<open>Reasoning tag parser (streaming/anthropic-stream.js, streaming/bigmodel-stream.js)\<close>

text \<open>
  The two copies of \<open>ReasoningTagParser\<close> are the same code; one model serves both.
  A string is a list of characters; \<open>substring(0, i)\<close> is \<open>take i\<close> and
  \<open>substring(i)\<close> is \<open>drop i\<close>.
\<close>

definition REASONING_OPEN_TAG :: string where
  "REASONING_OPEN_TAG = ''<reasoning_content>''"

definition REASONING_CLOSE_TAG :: string where
  "REASONING_CLOSE_TAG = ''</reasoning_content>''"

datatype segment_type = Thinking | Text

type_synonym segment = "segment_type \<times> string"

record ReasoningTagParser =
  buffer :: string
  inReasoning :: bool
  pendingOutput :: "segment list"

definition new_ReasoningTagParser :: ReasoningTagParser where
  "new_ReasoningTagParser = \<lparr>buffer = [], inReasoning = False, pendingOutput = []\<rparr>"

text \<open>\<open>String.prototype.indexOf\<close>: the first index at which \<open>tag\<close> occurs, \<open>None\<close> for -1.\<close>

fun indexOf :: "string \<Rightarrow> string \<Rightarrow> nat option" where
  "indexOf [] tag = (if tag = [] then Some 0 else None)"
| "indexOf (c # cs) tag =
     (if prefix tag (c # cs) then Some 0 else map_option Suc (indexOf cs tag))"

text \<open>The \<open>for\<close> loop of \<open>findPartialTag\<close>, counting \<open>len\<close> down to 1.\<close>

fun findPartialTag_from :: "string \<Rightarrow> string \<Rightarrow> nat \<Rightarrow> nat" where
  "findPartialTag_from text' tag 0 = 0"
| "findPartialTag_from text' tag (Suc n) =
     (let textEnd = drop (length text' - Suc n) text';
          tagStart = take (Suc n) tag
      in if textEnd = tagStart then Suc n else findPartialTag_from text' tag n)"

definition findPartialTag :: "string \<Rightarrow> string \<Rightarrow> nat" where
  "findPartialTag text' tag = findPartialTag_from text' tag (min (length text') (length tag - 1))"

text \<open>
  The \<open>while (this.buffer.length > 0)\<close> loop of \<open>processChunk\<close>; a \<open>break\<close> is a
  branch without a recursive call.
\<close>

function processChunk_loop :: "ReasoningTagParser \<Rightarrow> ReasoningTagParser" where
  "processChunk_loop this =
     (if length (buffer this) > 0 then
        (if inReasoning this then
           (case indexOf (buffer this) REASONING_CLOSE_TAG of
              Some closeIdx \<Rightarrow>
                (let reasoningContent = take closeIdx (buffer this) in
                 processChunk_loop
                   (this\<lparr>pendingOutput := pendingOutput this @
                            (if reasoningContent \<noteq> [] then [(Thinking, reasoningContent)] else []),
                         buffer := drop (closeIdx + length REASONING_CLOSE_TAG) (buffer this),
                         inReasoning := False\<rparr>))
            | None \<Rightarrow>
                (let partialClose = findPartialTag (buffer this) REASONING_CLOSE_TAG in
                 if partialClose > 0 then
                   (let safeContent = take (length (buffer this) - partialClose) (buffer this) in
                    this\<lparr>pendingOutput := pendingOutput this @
                           (if safeContent \<noteq> [] then [(Thinking, safeContent)] else []),
                         buffer := drop (length (buffer this) - partialClose) (buffer this)\<rparr>)
                 else this\<lparr>pendingOutput := pendingOutput this @ [(Thinking, buffer this)],
                           buffer := []\<rparr>))
         else
           (case indexOf (buffer this) REASONING_OPEN_TAG of
              Some openIdx \<Rightarrow>
                (let textContent = take openIdx (buffer this) in
                 processChunk_loop
                   (this\<lparr>pendingOutput := pendingOutput this @
                            (if textContent \<noteq> [] then [(Text, textContent)] else []),
                         buffer := drop (openIdx + length REASONING_OPEN_TAG) (buffer this),
                         inReasoning := True\<rparr>))
            | None \<Rightarrow>
                (let partialOpen = findPartialTag (buffer this) REASONING_OPEN_TAG in
                 if partialOpen > 0 then
                   (let safeContent = take (length (buffer this) - partialOpen) (buffer this) in
                    this\<lparr>pendingOutput := pendingOutput this @
                           (if safeContent \<noteq> [] then [(Text, safeContent)] else []),
                         buffer := drop (length (buffer this) - partialOpen) (buffer this)\<rparr>)
                 else this\<lparr>pendingOutput := pendingOutput this @ [(Text, buffer this)],
                           buffer := []\<rparr>)))
      else this)"
  by pat_completeness auto
termination
  by (relation "measure (\<lambda>this. length (buffer this))")
    (auto simp: REASONING_OPEN_TAG_def REASONING_CLOSE_TAG_def)

definition processChunk :: "ReasoningTagParser \<Rightarrow> string \<Rightarrow> segment list \<times> ReasoningTagParser" where
  "processChunk this text' =
     (let this' = processChunk_loop (this\<lparr>buffer := buffer this @ text', pendingOutput := []\<rparr>)
      in (pendingOutput this', this'))"

definition flush :: "ReasoningTagParser \<Rightarrow> segment list \<times> ReasoningTagParser" where
  "flush this =
     (if buffer this \<noteq> [] then
        ([(if inReasoning this then Thinking else Text, buffer this)], this\<lparr>buffer := []\<rparr>)
      else ([], this))"

text \<open>Feeding chunks in order to \<open>processChunk\<close>, collecting what each call returns.\<close>

fun feed_chunks :: "ReasoningTagParser \<Rightarrow> string list \<Rightarrow> segment list \<times> ReasoningTagParser" where
  "feed_chunks this [] = ([], this)"
| "feed_chunks this (chunk # chunks) =
     (case processChunk this chunk of
        (out, this') \<Rightarrow>
          (case feed_chunks this' chunks of (rest, this'') \<Rightarrow> (out @ rest, this'')))"

text \<open>All segments emitted for a chunked input: the chunks in order, then one \<open>flush\<close>.\<close>

definition split_stream :: "string list \<Rightarrow> segment list" where
  "split_stream chunks =
     (case feed_chunks new_ReasoningTagParser chunks of
        (out, this) \<Rightarrow> out @ fst (flush this))"

text \<open>The emitted characters in order, each with the type of its segment.\<close>

definition tagged :: "segment list \<Rightarrow> (segment_type \<times> char) list" where
  "tagged segs = concat (map (\<lambda>(ty, content). map (Pair ty) content) segs)"

text \<open>
  A well-formed input: plain text \<open>t0\<close>, then any number of tag pairs, each
  \<open><reasoning_content>r</reasoning_content>\<close> followed by plain text \<open>t\<close>, where no
  marker occurs inside any \<open>r\<close> or \<open>t\<close>.
\<close>

definition no_marker :: "string \<Rightarrow> bool" where
  "no_marker s \<longleftrightarrow> indexOf s REASONING_OPEN_TAG = None \<and> indexOf s REASONING_CLOSE_TAG = None"

definition well_formed :: "string \<Rightarrow> (string \<times> string) list \<Rightarrow> bool" where
  "well_formed t0 pairs \<longleftrightarrow> no_marker t0 \<and> list_all (\<lambda>(r, t). no_marker r \<and> no_marker t) pairs"

definition render :: "string \<Rightarrow> (string \<times> string) list \<Rightarrow> string" where
  "render t0 pairs =
     t0 @ concat (map (\<lambda>(r, t). REASONING_OPEN_TAG @ r @ REASONING_CLOSE_TAG @ t) pairs)"

definition markers_removed :: "string \<Rightarrow> (string \<times> string) list \<Rightarrow> string" where
  "markers_removed t0 pairs = t0 @ concat (map (\<lambda>(r, t). r @ t) pairs)"

definition expected_tagged :: "string \<Rightarrow> (string \<times> string) list \<Rightarrow> (segment_type \<times> char) list" where
  "expected_tagged t0 pairs =
     map (Pair Text) t0 @
     concat (map (\<lambda>(r, t). map (Pair Thinking) r @ map (Pair Text) t) pairs)"


lemma indexOf_Some_prefix: "indexOf s tag = Some i \<Longrightarrow> prefix tag (drop i s)"
  by (induction s arbitrary: i) (auto split: if_splits)

lemma indexOf_Some_le: "indexOf s tag = Some i \<Longrightarrow> i + length tag \<le> length s"
  by (induction s arbitrary: i) (auto split: if_splits dest: prefix_length_le)

lemma indexOf_Some_first: "indexOf s tag = Some i \<Longrightarrow> j < i \<Longrightarrow> \<not> prefix tag (drop j s)"
proof (induction s arbitrary: i j)
  case Nil
  then show ?case by (simp split: if_splits)
next
  case (Cons c cs)
  then show ?case
    by (cases j) (auto split: if_splits)
qed

lemma indexOf_None_no_prefix: "indexOf s tag = None \<Longrightarrow> \<not> prefix tag (drop j s)"
proof (induction s arbitrary: j)
  case Nil
  then show ?case by (simp split: if_splits)
next
  case (Cons c cs)
  then show ?case
    by (cases j) (auto split: if_splits)
qed

lemma indexOf_SomeI:
  "prefix tag (drop i s) \<Longrightarrow> i \<le> length s \<Longrightarrow> (\<forall>j<i. \<not> prefix tag (drop j s)) \<Longrightarrow>
   indexOf s tag = Some i"
proof (induction s arbitrary: i)
  case Nil
  then show ?case by simp
next
  case (Cons c cs)
  show ?case
  proof (cases i)
    case 0
    then show ?thesis using Cons.prems by simp
  next
    case (Suc i')
    have "\<not> prefix tag (c # cs)"
      using Cons.prems(3) Suc by (metis drop0 zero_less_Suc)
    moreover have "indexOf cs tag = Some i'"
    proof (rule Cons.IH)
      show "prefix tag (drop i' cs)" using Cons.prems(1) Suc by simp
      show "i' \<le> length cs" using Cons.prems(2) Suc by simp
      show "\<forall>j<i'. \<not> prefix tag (drop j cs)"
      proof (intro allI impI)
        fix j assume "j < i'"
        then have "Suc j < i" using Suc by simp
        then have "\<not> prefix tag (drop (Suc j) (c # cs))" using Cons.prems(3) by blast
        then show "\<not> prefix tag (drop j cs)" by simp
      qed
    qed
    ultimately show ?thesis using Suc by simp
  qed
qed

lemma indexOf_NoneI:
  "(\<forall>j\<le>length s. \<not> prefix tag (drop j s)) \<Longrightarrow> indexOf s tag = None"
proof (induction s)
  case Nil
  then show ?case by auto
next
  case (Cons c cs)
  have "\<not> prefix tag (c # cs)"
    using Cons.prems by (metis drop0 le0)
  moreover have "indexOf cs tag = None"
  proof (rule Cons.IH, intro allI impI)
    fix j assume "j \<le> length cs"
    then have "\<not> prefix tag (drop (Suc j) (c # cs))" using Cons.prems by (metis Suc_le_mono length_Cons)
    then show "\<not> prefix tag (drop j cs)" by simp
  qed
  ultimately show ?case by simp
qed

lemma indexOf_append:
  assumes "indexOf s tag = Some i"
  shows "indexOf (s @ r) tag = Some i"
proof (rule indexOf_SomeI)
  have le: "i + length tag \<le> length s" using assms by (rule indexOf_Some_le)
  show "prefix tag (drop i (s @ r))"
    using indexOf_Some_prefix [OF assms] le by (simp add: prefix_prefix)
  show "i \<le> length (s @ r)" using le by simp
  show "\<forall>j<i. \<not> prefix tag (drop j (s @ r))"
  proof (intro allI impI notI)
    fix j assume j: "j < i" and p: "prefix tag (drop j (s @ r))"
    have np: "\<not> prefix tag (drop j s)" using assms j by (rule indexOf_Some_first)
    have "prefix tag (drop j s @ r)" using p j le by simp
    then obtain us where "tag = drop j s @ us"
      using np by (auto simp: prefix_append)
    then have "length tag = length s - j + length us" by (metis length_append length_drop)
    then show False using le j by simp
  qed
qed

lemma indexOf_drop_None: "indexOf s tag = None \<Longrightarrow> indexOf (drop n s) tag = None"
  by (rule indexOf_NoneI) (simp add: indexOf_None_no_prefix)

lemma indexOf_drop_Some:
  assumes "indexOf s tag = Some i" and "n \<le> i"
  shows "indexOf (drop n s) tag = Some (i - n)"
proof (rule indexOf_SomeI)
  have le: "i + length tag \<le> length s" using assms(1) by (rule indexOf_Some_le)
  show "prefix tag (drop (i - n) (drop n s))"
    using indexOf_Some_prefix [OF assms(1)] assms(2) by simp
  show "i - n \<le> length (drop n s)" using le assms(2) by simp
  show "\<forall>j<i - n. \<not> prefix tag (drop j (drop n s))"
  proof (intro allI impI)
    fix j assume "j < i - n"
    then have "j + n < i" by simp
    then have "\<not> prefix tag (drop (j + n) s)" using assms(1) by (rule indexOf_Some_first [rotated])
    then show "\<not> prefix tag (drop j (drop n s))" by simp
  qed
qed

text \<open>
  The marker the parser looks for in each mode, and the type it gives to content
  emitted in that mode.
\<close>

definition tag_for :: "bool \<Rightarrow> string" where
  "tag_for inR = (if inR then REASONING_CLOSE_TAG else REASONING_OPEN_TAG)"

definition type_for :: "bool \<Rightarrow> segment_type" where
  "type_for inR = (if inR then Thinking else Text)"

lemma tag_for_nonempty: "tag_for m \<noteq> []"
  by (simp add: tag_for_def REASONING_OPEN_TAG_def REASONING_CLOSE_TAG_def)

lemma tag_for_length: "0 < length (tag_for m)"
  using tag_for_nonempty by simp

text \<open>
  The classification of a whole string, read in one piece: in text mode up to the
  first opening marker, then in reasoning mode up to the first closing marker, and so
  on; each character is paired with the type of the mode it is read in and the markers
  found are dropped.
\<close>

function classify :: "bool \<Rightarrow> string \<Rightarrow> (segment_type \<times> char) list" where
  "classify inR s =
     (case indexOf s (tag_for inR) of
        None \<Rightarrow> map (Pair (type_for inR)) s
      | Some i \<Rightarrow>
          map (Pair (type_for inR)) (take i s) @
          classify (\<not> inR) (drop (i + length (tag_for inR)) s))"
  by pat_completeness auto
termination
proof (relation "measure (\<lambda>(inR, s). length s)")
  show "wf (measure (\<lambda>(inR, s). length s))" by simp
next
  fix inR s i
  assume "indexOf s (tag_for inR) = Some i"
  then have "i + length (tag_for inR) \<le> length s" by (rule indexOf_Some_le)
  moreover have "0 < length (tag_for inR)" by (rule tag_for_length)
  ultimately have "length s - (i + length (tag_for inR)) < length s" by arith
  then show "((\<not> inR, drop (i + length (tag_for inR)) s), (inR, s)) \<in> measure (\<lambda>(inR, s). length s)"
    by simp
qed

declare classify.simps [simp del]

lemma classify_None:
  "indexOf s (tag_for m) = None \<Longrightarrow> classify m s = map (Pair (type_for m)) s"
  by (subst classify.simps) simp

lemma classify_Some:
  "indexOf s (tag_for m) = Some i \<Longrightarrow>
   classify m s = map (Pair (type_for m)) (take i s) @ classify (\<not> m) (drop (i + length (tag_for m)) s)"
  by (subst classify.simps) simp

lemma classify_found:
  assumes "indexOf b (tag_for m) = Some i"
  shows "classify m (b @ R) =
    map (Pair (type_for m)) (take i b) @ classify (\<not> m) (drop (i + length (tag_for m)) b @ R)"
proof -
  have le: "i + length (tag_for m) \<le> length b" using assms by (rule indexOf_Some_le)
  show ?thesis
    using classify_Some [OF indexOf_append [OF assms, of R]] le by simp
qed

lemma classify_skip:
  assumes "\<forall>j<n. \<not> prefix (tag_for m) (drop j s)" and "n \<le> length s"
  shows "classify m s = map (Pair (type_for m)) (take n s) @ classify m (drop n s)"
proof (cases "indexOf s (tag_for m)")
  case None
  have "map (Pair (type_for m)) s =
      map (Pair (type_for m)) (take n s) @ map (Pair (type_for m)) (drop n s)"
    by (metis append_take_drop_id map_append)
  then show ?thesis
    using classify_None [OF None] classify_None [OF indexOf_drop_None [OF None, of n]] by simp
next
  case (Some i)
  have "n \<le> i"
    using assms(1) indexOf_Some_prefix [OF Some] by (meson not_le)
  have t: "take i s = take n s @ take (i - n) (drop n s)"
    using \<open>n \<le> i\<close> by (metis le_add_diff_inverse take_add)
  have e: "i - n + length (tag_for m) + n = i + length (tag_for m)"
    using \<open>n \<le> i\<close> by simp
  show ?thesis
    using classify_Some [OF Some] classify_Some [OF indexOf_drop_Some [OF Some \<open>n \<le> i\<close>]]
    by (simp add: t e)
qed

lemma findPartialTag_from_le: "findPartialTag_from t tag n \<le> n"
  by (induction n) (auto simp: Let_def)

lemma findPartialTag_from_match:
  "0 < findPartialTag_from t tag n \<Longrightarrow>
   drop (length t - findPartialTag_from t tag n) t = take (findPartialTag_from t tag n) tag"
  by (induction n) (auto simp: Let_def)

lemma findPartialTag_from_longest:
  "findPartialTag_from t tag n < m \<Longrightarrow> m \<le> n \<Longrightarrow> drop (length t - m) t \<noteq> take m tag"
proof (induction n)
  case 0
  then show ?case by simp
next
  case (Suc n)
  show ?case
  proof (cases "m = Suc n")
    case True
    then show ?thesis using Suc.prems by (auto simp: Let_def split: if_splits)
  next
    case False
    then have "m \<le> n" using Suc.prems by simp
    moreover have "findPartialTag_from t tag n < m"
      using Suc.prems(1) findPartialTag_from_le [of t tag n] \<open>m \<le> n\<close>
      by (auto simp: Let_def split: if_splits)
    ultimately show ?thesis by (rule Suc.IH [rotated])
  qed
qed

lemma findPartialTag_le: "findPartialTag b tag \<le> length b" "findPartialTag b tag \<le> length tag - 1"
  using findPartialTag_from_le [of b tag "min (length b) (length tag - 1)"]
  by (simp_all add: findPartialTag_def)

lemma partial_no_occurrence:
  assumes none: "indexOf b tag = None" and "tag \<noteq> []"
    and j: "j < length b - findPartialTag b tag"
  shows "\<not> prefix tag (drop j (b @ r))"
proof
  assume p: "prefix tag (drop j (b @ r))"
  let ?u = "drop j b"
  have jb: "j < length b" using j by simp
  have np: "\<not> prefix tag ?u" using none by (rule indexOf_None_no_prefix)
  have "prefix tag (?u @ r)" using p jb by simp
  then obtain us where us: "tag = ?u @ us"
    using np by (auto simp: prefix_append)
  have "us \<noteq> []" using np us by auto
  let ?m = "length ?u"
  have "length tag = ?m + length us" using us by (metis length_append)
  moreover have "0 < length us" using \<open>us \<noteq> []\<close> by simp
  ultimately have m1: "?m \<le> length tag - 1" by arith
  have m2: "?m \<le> length b" by simp
  have k: "findPartialTag_from b tag (min (length b) (length tag - 1)) < ?m"
    using j jb by (simp add: findPartialTag_def)
  have "drop (length b - ?m) b \<noteq> take ?m tag"
    using findPartialTag_from_longest [OF k] m1 m2 by simp
  moreover have "drop (length b - ?m) b = ?u" using jb by simp
  moreover have "take ?m tag = ?u" using us by (metis append_eq_conv_conj)
  ultimately show False by simp
qed

text \<open>A segment is pushed only when its content is a non-empty string.\<close>

definition seg :: "segment_type \<Rightarrow> string \<Rightarrow> segment list" where
  "seg ty content = (if content \<noteq> [] then [(ty, content)] else [])"

declare processChunk_loop.simps [simp del]

lemma loop_empty: "buffer st = [] \<Longrightarrow> processChunk_loop st = st"
  by (subst processChunk_loop.simps) simp

lemma loop_found:
  "buffer st \<noteq> [] \<Longrightarrow> indexOf (buffer st) (tag_for (inReasoning st)) = Some i \<Longrightarrow>
   processChunk_loop st =
     processChunk_loop
       (st\<lparr>pendingOutput := pendingOutput st @ seg (type_for (inReasoning st)) (take i (buffer st)),
           buffer := drop (i + length (tag_for (inReasoning st))) (buffer st),
           inReasoning := \<not> inReasoning st\<rparr>)"
  apply (subst processChunk_loop.simps)
  apply (cases "inReasoning st")
   apply (simp_all add: tag_for_def type_for_def seg_def Let_def)
  done

lemma loop_break:
  "buffer st \<noteq> [] \<Longrightarrow> indexOf (buffer st) (tag_for (inReasoning st)) = None \<Longrightarrow>
   processChunk_loop st =
     st\<lparr>pendingOutput := pendingOutput st @
           seg (type_for (inReasoning st))
             (take (length (buffer st) - findPartialTag (buffer st) (tag_for (inReasoning st))) (buffer st)),
        buffer := drop (length (buffer st) - findPartialTag (buffer st) (tag_for (inReasoning st))) (buffer st)\<rparr>"
  apply (subst processChunk_loop.simps)
  apply (cases "inReasoning st")
   apply (simp_all add: tag_for_def type_for_def seg_def Let_def)
  done

lemma tagged_append [simp]: "tagged (a @ b) = tagged a @ tagged b"
  by (simp add: tagged_def)

lemma tagged_Nil [simp]: "tagged [] = []"
  by (simp add: tagged_def)

lemma tagged_seg [simp]: "tagged (seg ty s) = map (Pair ty) s"
  by (simp add: tagged_def seg_def)

lemma loop_classify:
  "tagged (pendingOutput (processChunk_loop st)) @
     classify (inReasoning (processChunk_loop st)) (buffer (processChunk_loop st) @ R) =
   tagged (pendingOutput st) @ classify (inReasoning st) (buffer st @ R)"
proof (induction "length (buffer st)" arbitrary: st rule: less_induct)
  case less
  show ?case
  proof (cases "buffer st = []")
    case True
    then show ?thesis by (simp add: loop_empty)
  next
    case ne: False
    let ?m = "inReasoning st"
    show ?thesis
    proof (cases "indexOf (buffer st) (tag_for ?m)")
      case (Some i)
      let ?st' = "st\<lparr>pendingOutput := pendingOutput st @ seg (type_for ?m) (take i (buffer st)),
           buffer := drop (i + length (tag_for ?m)) (buffer st), inReasoning := \<not> ?m\<rparr>"
      have "length (buffer ?st') < length (buffer st)"
        using ne tag_for_length [of ?m] by simp
      then have "tagged (pendingOutput (processChunk_loop ?st')) @
          classify (inReasoning (processChunk_loop ?st')) (buffer (processChunk_loop ?st') @ R) =
          tagged (pendingOutput ?st') @ classify (inReasoning ?st') (buffer ?st' @ R)"
        by (rule less)
      then show ?thesis
        using loop_found [OF ne Some] classify_found [OF Some, of R] by simp
    next
      case None
      let ?k = "findPartialTag (buffer st) (tag_for ?m)"
      have "\<forall>j<length (buffer st) - ?k. \<not> prefix (tag_for ?m) (drop j (buffer st @ R))"
        using partial_no_occurrence [OF None tag_for_nonempty] by blast
      then have "classify ?m (buffer st @ R) =
          map (Pair (type_for ?m)) (take (length (buffer st) - ?k) (buffer st @ R)) @
          classify ?m (drop (length (buffer st) - ?k) (buffer st @ R))"
        by (rule classify_skip) simp
      then show ?thesis
        using loop_break [OF ne None] by simp
    qed
  qed
qed

lemma loop_no_tag:
  "indexOf (buffer (processChunk_loop st)) (tag_for (inReasoning (processChunk_loop st))) = None"
proof (induction "length (buffer st)" arbitrary: st rule: less_induct)
  case less
  show ?case
  proof (cases "buffer st = []")
    case True
    then show ?thesis using tag_for_nonempty by (simp add: loop_empty)
  next
    case ne: False
    let ?m = "inReasoning st"
    show ?thesis
    proof (cases "indexOf (buffer st) (tag_for ?m)")
      case (Some i)
      let ?st' = "st\<lparr>pendingOutput := pendingOutput st @ seg (type_for ?m) (take i (buffer st)),
           buffer := drop (i + length (tag_for ?m)) (buffer st), inReasoning := \<not> ?m\<rparr>"
      have "length (buffer ?st') < length (buffer st)"
        using ne tag_for_length [of ?m] by simp
      then have "indexOf (buffer (processChunk_loop ?st'))
          (tag_for (inReasoning (processChunk_loop ?st'))) = None"
        by (rule less)
      then show ?thesis
        using loop_found [OF ne Some] by simp
    next
      case None
      let ?k = "findPartialTag (buffer st) (tag_for ?m)"
      let ?b' = "drop (length (buffer st) - ?k) (buffer st)"
      have "length ?b' = ?k"
        using findPartialTag_le(1) [of "buffer st" "tag_for ?m"] by simp
      moreover have "?k \<le> length (tag_for ?m) - 1"
        by (rule findPartialTag_le(2))
      moreover have "0 < length (tag_for ?m)"
        by (rule tag_for_length)
      ultimately have len: "length ?b' < length (tag_for ?m)"
        by arith
      have "indexOf ?b' (tag_for ?m) = None"
      proof (cases "indexOf ?b' (tag_for ?m)")
        case (Some i)
        then show ?thesis using indexOf_Some_le [OF Some] len by simp
      qed simp
      then show ?thesis
        using loop_break [OF ne None] by simp
    qed
  qed
qed

lemma loop_nonempty_segments:
  "(\<forall>sg \<in> set (pendingOutput st). snd sg \<noteq> []) \<Longrightarrow>
   (\<forall>sg \<in> set (pendingOutput (processChunk_loop st)). snd sg \<noteq> [])"
proof (induction "length (buffer st)" arbitrary: st rule: less_induct)
  case less
  show ?case
  proof (cases "buffer st = []")
    case True
    then show ?thesis using less.prems by (simp add: loop_empty)
  next
    case ne: False
    let ?m = "inReasoning st"
    show ?thesis
    proof (cases "indexOf (buffer st) (tag_for ?m)")
      case (Some i)
      let ?st' = "st\<lparr>pendingOutput := pendingOutput st @ seg (type_for ?m) (take i (buffer st)),
           buffer := drop (i + length (tag_for ?m)) (buffer st), inReasoning := \<not> ?m\<rparr>"
      have "length (buffer ?st') < length (buffer st)"
        using ne tag_for_length [of ?m] by simp
      moreover have "\<forall>sg \<in> set (pendingOutput ?st'). snd sg \<noteq> []"
        using less.prems by (auto simp: seg_def)
      ultimately have "\<forall>sg \<in> set (pendingOutput (processChunk_loop ?st')). snd sg \<noteq> []"
        by (rule less.hyps)
      then show ?thesis
        using loop_found [OF ne Some] by simp
    next
      case None
      then show ?thesis
        using loop_break [OF ne None] less.prems by (auto simp: seg_def)
    qed
  qed
qed

lemma processChunk_classify:
  assumes "processChunk st chunk = (out, st')"
  shows "tagged out @ classify (inReasoning st') (buffer st' @ R) =
           classify (inReasoning st) (buffer st @ chunk @ R)"
    and "indexOf (buffer st') (tag_for (inReasoning st')) = None"
    and "\<forall>sg \<in> set out. snd sg \<noteq> []"
proof -
  let ?st0 = "st\<lparr>buffer := buffer st @ chunk, pendingOutput := []\<rparr>"
  have o: "out = pendingOutput (processChunk_loop ?st0)" and s: "st' = processChunk_loop ?st0"
    using assms by (auto simp: processChunk_def Let_def)
  show "tagged out @ classify (inReasoning st') (buffer st' @ R) =
           classify (inReasoning st) (buffer st @ chunk @ R)"
    using loop_classify [of ?st0 R] by (simp add: o s)
  show "indexOf (buffer st') (tag_for (inReasoning st')) = None"
    unfolding s by (rule loop_no_tag)
  show "\<forall>sg \<in> set out. snd sg \<noteq> []"
    unfolding o by (rule loop_nonempty_segments) simp
qed

lemma feed_chunks_classify:
  assumes "feed_chunks st chunks = (out, st')"
    and "indexOf (buffer st) (tag_for (inReasoning st)) = None"
  shows "tagged out @ classify (inReasoning st') (buffer st' @ R) =
           classify (inReasoning st) (buffer st @ concat chunks @ R) \<and>
         indexOf (buffer st') (tag_for (inReasoning st')) = None \<and>
         (\<forall>sg \<in> set out. snd sg \<noteq> [])"
  using assms
proof (induction chunks arbitrary: st out st')
  case Nil
  then show ?case by simp
next
  case (Cons chunk chunks)
  obtain o1 st1 where p: "processChunk st chunk = (o1, st1)" by (cases "processChunk st chunk")
  obtain o2 st2 where f: "feed_chunks st1 chunks = (o2, st2)" by (cases "feed_chunks st1 chunks")
  have eq: "out = o1 @ o2" "st' = st2"
    using Cons.prems(1) p f by simp_all
  note pc = processChunk_classify [OF p]
  have ih: "tagged o2 @ classify (inReasoning st2) (buffer st2 @ R) =
           classify (inReasoning st1) (buffer st1 @ concat chunks @ R) \<and>
         indexOf (buffer st2) (tag_for (inReasoning st2)) = None \<and>
         (\<forall>sg \<in> set o2. snd sg \<noteq> [])"
    using Cons.IH [OF f pc(2)] .
  show ?case
    using ih pc(1) [of "concat chunks @ R"] pc(3) by (auto simp: eq)
qed

lemma flush_tagged:
  "indexOf (buffer st) (tag_for (inReasoning st)) = None \<Longrightarrow>
   tagged (fst (flush st)) = classify (inReasoning st) (buffer st)"
  by (simp add: flush_def classify_None tagged_def type_for_def)

text \<open>
  Chunking invariance: whatever the chunking, the characters emitted by the chunks
  and the final flush, with their types, are the classification of the whole input.
\<close>

lemma split_stream_classify:
  "tagged (split_stream chunks) = classify False (concat chunks)"
proof -
  obtain out st where f: "feed_chunks new_ReasoningTagParser chunks = (out, st)"
    by (cases "feed_chunks new_ReasoningTagParser chunks")
  have init: "indexOf (buffer new_ReasoningTagParser) (tag_for (inReasoning new_ReasoningTagParser)) = None"
    using tag_for_nonempty by (simp add: new_ReasoningTagParser_def)
  note fc = feed_chunks_classify [OF f init, of "[]"]
  have "tagged (split_stream chunks) = tagged out @ tagged (fst (flush st))"
    by (simp add: split_stream_def f)
  also have "\<dots> = tagged out @ classify (inReasoning st) (buffer st)"
    using fc by (simp add: flush_tagged)
  also have "\<dots> = classify False (concat chunks)"
    using fc by (simp add: new_ReasoningTagParser_def)
  finally show ?thesis .
qed

lemma split_stream_nonempty: "\<forall>sg \<in> set (split_stream chunks). snd sg \<noteq> []"
proof -
  obtain out st where f: "feed_chunks new_ReasoningTagParser chunks = (out, st)"
    by (cases "feed_chunks new_ReasoningTagParser chunks")
  have init: "indexOf (buffer new_ReasoningTagParser) (tag_for (inReasoning new_ReasoningTagParser)) = None"
    using tag_for_nonempty by (simp add: new_ReasoningTagParser_def)
  note fc = feed_chunks_classify [OF f init, of "[]"]
  show ?thesis
    using fc by (auto simp: split_stream_def f flush_def)
qed

lemma indexOf_first_occurrence:
  assumes none: "indexOf t tag = None" and tag: "tag = c # rest" and c: "c \<notin> set rest"
  shows "indexOf (t @ tag @ X) tag = Some (length t)"
proof (rule indexOf_SomeI)
  show "prefix tag (drop (length t) (t @ tag @ X))" by simp
  show "length t \<le> length (t @ tag @ X)" by simp
  show "\<forall>j<length t. \<not> prefix tag (drop j (t @ tag @ X))"
  proof (intro allI impI notI)
    fix j assume j: "j < length t" and p: "prefix tag (drop j (t @ tag @ X))"
    let ?u = "drop j t"
    have np: "\<not> prefix tag ?u" using none by (rule indexOf_None_no_prefix)
    have "prefix tag (?u @ (tag @ X))" using p j by simp
    then have "prefix tag ?u \<or> (\<exists>us. tag = ?u @ us \<and> prefix us (tag @ X))"
      by (simp only: prefix_append)
    then obtain us where us: "tag = ?u @ us" and pus: "prefix us (tag @ X)"
      using np by blast
    have "us \<noteq> []"
    proof
      assume "us = []"
      then have "tag = ?u" using us by simp
      then show False using np by simp
    qed
    then obtain d ds where d: "us = d # ds" by (cases us) auto
    have "prefix (d # ds) ((c # rest) @ X)" using pus unfolding d tag .
    then have "d = c" by simp
    obtain u0 u' where u: "?u = u0 # u'" using j by (cases ?u) auto
    have "c # rest = ?u @ us" using tag [symmetric] us by (rule trans)
    then have "c # rest = (u0 # u') @ (d # ds)" unfolding u d .
    then have "rest = u' @ d # ds" by simp
    then show False using c \<open>d = c\<close> by simp
  qed
qed

lemma open_first:
  "indexOf t REASONING_OPEN_TAG = None \<Longrightarrow>
   indexOf (t @ REASONING_OPEN_TAG @ X) REASONING_OPEN_TAG = Some (length t)"
  by (rule indexOf_first_occurrence [where c = "CHR ''<''" and rest = "''reasoning_content>''"])
    (simp_all add: REASONING_OPEN_TAG_def)

lemma close_first:
  "indexOf t REASONING_CLOSE_TAG = None \<Longrightarrow>
   indexOf (t @ REASONING_CLOSE_TAG @ X) REASONING_CLOSE_TAG = Some (length t)"
  by (rule indexOf_first_occurrence [where c = "CHR ''<''" and rest = "''/reasoning_content>''"])
    (simp_all add: REASONING_CLOSE_TAG_def)

lemma classify_open:
  "indexOf t REASONING_OPEN_TAG = None \<Longrightarrow>
   classify False (t @ REASONING_OPEN_TAG @ X) = map (Pair Text) t @ classify True X"
  using classify_Some [of "t @ REASONING_OPEN_TAG @ X" False "length t"] open_first [of t X]
  by (simp add: tag_for_def type_for_def)

lemma classify_close:
  "indexOf t REASONING_CLOSE_TAG = None \<Longrightarrow>
   classify True (t @ REASONING_CLOSE_TAG @ X) = map (Pair Thinking) t @ classify False X"
  using classify_Some [of "t @ REASONING_CLOSE_TAG @ X" True "length t"] close_first [of t X]
  by (simp add: tag_for_def type_for_def)

lemma render_Cons:
  "render t0 ((r, t) # ps) = t0 @ REASONING_OPEN_TAG @ r @ REASONING_CLOSE_TAG @ render t ps"
  by (simp add: render_def)

lemma expected_tagged_Cons:
  "expected_tagged t0 ((r, t) # ps) =
     map (Pair Text) t0 @ map (Pair Thinking) r @ expected_tagged t ps"
  by (simp add: expected_tagged_def)

lemma classify_render:
  "well_formed t0 pairs \<Longrightarrow> classify False (render t0 pairs) = expected_tagged t0 pairs"
proof (induction pairs arbitrary: t0)
  case Nil
  then show ?case
    using classify_None [of t0 False]
    by (simp add: well_formed_def no_marker_def render_def expected_tagged_def tag_for_def type_for_def)
next
  case (Cons p ps)
  obtain r t where p: "p = (r, t)" by (cases p)
  have t0: "indexOf t0 REASONING_OPEN_TAG = None"
    and r: "indexOf r REASONING_CLOSE_TAG = None"
    and wf: "well_formed t ps"
    using Cons.prems by (simp_all add: well_formed_def no_marker_def p)
  show ?case
    unfolding p render_Cons expected_tagged_Cons
    using classify_open [OF t0] classify_close [OF r] Cons.IH [OF wf] by simp
qed

lemma tagged_snd: "map snd (tagged segs) = concat (map snd segs)"
  by (induction segs) (auto simp: tagged_def comp_def)

lemma expected_tagged_snd: "map snd (expected_tagged t0 pairs) = markers_removed t0 pairs"
  by (induction pairs arbitrary: t0) (auto simp: expected_tagged_def markers_removed_def comp_def)

text \<open>
  C1. Splitter round-trip: for a well-formed input and any chunking of it, the
  contents of the emitted segments concatenate to the input with the markers
  removed, and every emitted character carries \<open>Thinking\<close> exactly when it lies
  inside a tag pair and \<open>Text\<close> otherwise.
\<close>

theorem splitter_round_trip:
  assumes "well_formed t0 pairs" and "concat chunks = render t0 pairs"
  shows "concat (map snd (split_stream chunks)) = markers_removed t0 pairs \<and>
         tagged (split_stream chunks) = expected_tagged t0 pairs"
proof -
  have t: "tagged (split_stream chunks) = expected_tagged t0 pairs"
    using split_stream_classify [of chunks] classify_render [OF assms(1)] assms(2) by simp
  have "concat (map snd (split_stream chunks)) = markers_removed t0 pairs"
    using arg_cong [OF t, of "map snd"] by (simp only: tagged_snd expected_tagged_snd)
  then show ?thesis
    using t by simp
qed

theorem splitter_round_trip_witness:
  "well_formed ''a'' [(''b'', ''c'')] \<and>
   concat [''a<reas'', ''oning_content>b</reasoning'', ''_content>c''] = render ''a'' [(''b'', ''c'')] \<and>
   concat (map snd (split_stream [''a<reas'', ''oning_content>b</reasoning'', ''_content>c''])) = ''abc'' \<and>
   tagged (split_stream [''a<reas'', ''oning_content>b</reasoning'', ''_content>c'']) =
     [(Text, CHR ''a''), (Thinking, CHR ''b''), (Text, CHR ''c'')]"
proof -
  have w: "well_formed ''a'' [(''b'', ''c'')]"
    by (simp add: well_formed_def no_marker_def REASONING_OPEN_TAG_def REASONING_CLOSE_TAG_def)
  have c: "concat [''a<reas'', ''oning_content>b</reasoning'', ''_content>c''] = render ''a'' [(''b'', ''c'')]"
    by (simp add: render_def REASONING_OPEN_TAG_def REASONING_CLOSE_TAG_def)
  show ?thesis
    using w c splitter_round_trip [OF w c]
    by (simp add: markers_removed_def expected_tagged_def)
qed

lemma tagged_Cons: "tagged ((ty, s) # rest) = map (Pair ty) s @ tagged rest"
  by (simp add: tagged_def)

lemma two_segments:
  assumes "tagged segs = [(Text, x), (Thinking, y)]" and "\<forall>sg \<in> set segs. snd sg \<noteq> []"
  shows "segs = [(Text, [x]), (Thinking, [y])]"
proof -
  obtain ty1 s1 rest where segs: "segs = (ty1, s1) # rest"
    using assms(1) by (cases segs) (auto simp: tagged_def)
  obtain c1 s1' where s1: "s1 = c1 # s1'"
    using assms(2) segs by (cases s1) auto
  have a: "(ty1, c1) # map (Pair ty1) s1' @ tagged rest = [(Text, x), (Thinking, y)]"
    using assms(1) segs s1 by (auto simp: tagged_Cons)
  then have ty1: "ty1 = Text" "c1 = x" and b: "map (Pair Text) s1' @ tagged rest = [(Thinking, y)]"
    by auto
  have "s1' = []" using b by (cases s1') auto
  then have tr: "tagged rest = [(Thinking, y)]" using b by simp
  obtain ty2 s2 rest' where rest: "rest = (ty2, s2) # rest'"
    using tr by (cases rest) (auto simp: tagged_def)
  obtain c2 s2' where s2: "s2 = c2 # s2'"
    using assms(2) segs rest by (cases s2) auto
  have d: "(ty2, c2) # map (Pair ty2) s2' @ tagged rest' = [(Thinking, y)]"
    using tr rest s2 by (auto simp: tagged_Cons)
  then have ty2: "ty2 = Thinking" "c2 = y" "s2' = []" and e: "tagged rest' = []"
    by auto
  have "rest' = []"
  proof (cases rest')
    case (Cons sg more)
    obtain ty3 s3 where "sg = (ty3, s3)" by (cases sg)
    moreover have "s3 \<noteq> []" using assms(2) segs rest Cons calculation by auto
    ultimately show ?thesis using e Cons by (cases s3) (auto simp: tagged_Cons)
  qed simp
  then show ?thesis
    using segs s1 ty1 \<open>s1' = []\<close> rest s2 ty2 by simp
qed

text \<open>
  C9. Splitter unterminated tag: every chunking of \<open>a<reasoning_content>b\<close>,
  followed by one flush, emits exactly the text segment \<open>a\<close> and then the
  thinking segment \<open>b\<close>.
\<close>

theorem splitter_unterminated_tag:
  assumes "concat chunks = ''a<reasoning_content>b''"
  shows "split_stream chunks = [(Text, ''a''), (Thinking, ''b'')]"
proof -
  have n: "indexOf ''a'' REASONING_OPEN_TAG = None" "indexOf ''b'' (tag_for True) = None"
    by (simp_all add: REASONING_OPEN_TAG_def REASONING_CLOSE_TAG_def tag_for_def)
  have e: "''a<reasoning_content>b'' = ''a'' @ REASONING_OPEN_TAG @ ''b''"
    by (simp add: REASONING_OPEN_TAG_def)
  have "classify False ''a<reasoning_content>b'' = map (Pair Text) ''a'' @ classify True ''b''"
    unfolding e by (rule classify_open [OF n(1)])
  also have "\<dots> = [(Text, CHR ''a''), (Thinking, CHR ''b'')]"
    using classify_None [OF n(2)] by (simp add: type_for_def)
  finally have "tagged (split_stream chunks) = [(Text, CHR ''a''), (Thinking, CHR ''b'')]"
    using split_stream_classify [of chunks] assms by simp
  then show ?thesis
    using split_stream_nonempty [of chunks] by (rule two_segments)
qed

theorem splitter_unterminated_tag_witness:
  "split_stream [''a<reas'', ''oning_'', ''content>b''] = [(Text, ''a''), (Thinking, ''b'')]"
  using splitter_unterminated_tag [of "[''a<reas'', ''oning_'', ''content>b'']"] by simp


section \<open>Streaming engine of the native endpoint (streaming/anthropic-stream.js)\<close>

text \<open>
  An upstream event is the parsed JSON of one \<open>data:\<close> line. An event with a
  \<open>choices[0].delta\<close> object is the delta-chunk dialect (a field that is absent or
  an empty string is falsy and written as the empty string); the others are the
  native dialect, told apart by \<open>type\<close>. Lines that do not parse have no effect and
  are left out of the event list.
\<close>

record content_block =
  cb_type :: string
  cb_id :: string
  cb_name :: string

datatype upstream_delta =
    InputJsonDelta string
  | TextDelta string
  | ThinkingDelta string
  | OtherDelta string

datatype upstream_event =
    ChoicesDelta string string string
  | MessageStart
  | ContentBlockStart int content_block
  | ContentBlockDelta int upstream_delta
  | ContentBlockStop int
  | MessageDelta string
  | MessageStop
  | UnknownEvent string

text \<open>
  What \<open>res.write\<close> sends: either an upstream event serialised again as it came
  (\<open>Forward\<close>), or an event the engine builds itself.
\<close>

datatype out_event =
    Forward upstream_event
  | SynthMessageStart
  | SynthBlockStart int segment_type
  | SynthBlockDelta int segment_type string
  | SynthBlockStop int
  | SynthMessageDelta string
  | SynthMessageStop
  | SynthError string

text \<open>
  \<open>StreamState\<close>, shared by every recursive continuation of one response. The
  fields \<open>serverToolInProgress\<close>, \<open>serverToolInput\<close> and \<open>afterServerTool\<close> only
  feed log lines and are left out.
\<close>

record StreamState =
  messageStartSent :: bool
  currentBlockIndex :: nat
  skippingBlockIndex :: "int option"

record tool_use_acc =
  tu_id :: string
  tu_name :: string
  tu_input :: string
  tu_index :: int

text \<open>
  The local variables of one call of \<open>streamAnthropicWithToolDetection\<close>, with the
  stream state and everything written to the response so far. Token usage and the
  text accumulated for statistics are left out.
\<close>

record engine =
  streamState :: StreamState
  written :: "out_event list"
  fullContent :: "tool_call list"
  internalToolCalls :: "tool_call list"
  clientToolCalls :: "tool_call list"
  currentToolUse :: "tool_use_acc option"
  stopReason :: string
  nativeThinkingBlockActive :: bool
  thinkingBlockStarted :: bool
  thinkingBlockIndex :: int
  textBlockStarted :: bool
  textBlockIndex :: int
  parsedThinkingBlockStarted :: bool
  reasoningParser :: ReasoningTagParser

record stream_env =
  thinkingEnabled :: bool
  stream_config :: config
  stream_mcps :: "mcp list"
  valid_json :: "string \<Rightarrow> bool"

definition VALID_CONTENT_TYPES :: "string list" where
  "VALID_CONTENT_TYPES = [''text'', ''image'', ''tool_use'', ''tool_result'', ''thinking'']"

definition SERVER_TOOL_TYPES :: "string list" where
  "SERVER_TOOL_TYPES = [''server_tool_use'', ''server_tool_result'']"

definition new_round :: "StreamState \<Rightarrow> out_event list \<Rightarrow> engine" where
  "new_round ss w =
     \<lparr>streamState = ss, written = w, fullContent = [], internalToolCalls = [],
      clientToolCalls = [], currentToolUse = None, stopReason = ''end_turn'',
      nativeThinkingBlockActive = False, thinkingBlockStarted = False, thinkingBlockIndex = - 1,
      textBlockStarted = False, textBlockIndex = - 1, parsedThinkingBlockStarted = False,
      reasoningParser = new_ReasoningTagParser\<rparr>"

definition res_write :: "out_event \<Rightarrow> engine \<Rightarrow> engine" where
  "res_write ev e = e\<lparr>written := written e @ [ev]\<rparr>"

definition ensureMessageStart :: "engine \<Rightarrow> engine" where
  "ensureMessageStart e =
     (if \<not> messageStartSent (streamState e) then
        (res_write SynthMessageStart e)\<lparr>streamState := (streamState e)\<lparr>messageStartSent := True\<rparr>\<rparr>
      else e)"

text \<open>\<open>x = streamState.currentBlockIndex++\<close>: the old value, and the counter one higher.\<close>

definition next_index :: "engine \<Rightarrow> int \<times> engine" where
  "next_index e =
     (int (currentBlockIndex (streamState e)),
      e\<lparr>streamState := (streamState e)\<lparr>currentBlockIndex := currentBlockIndex (streamState e) + 1\<rparr>\<rparr>)"

definition startTextBlock :: "engine \<Rightarrow> engine" where
  "startTextBlock e =
     (if \<not> textBlockStarted e then
        (let e1 = ensureMessageStart e;
             (idx, e2) = next_index (e1\<lparr>textBlockStarted := True\<rparr>);
             e3 = e2\<lparr>textBlockIndex := idx\<rparr>
         in res_write (SynthBlockStart (textBlockIndex e3) Text) e3)
      else e)"

definition startParsedThinkingBlock :: "engine \<Rightarrow> engine" where
  "startParsedThinkingBlock e =
     (if \<not> parsedThinkingBlockStarted e then
        (let e1 = ensureMessageStart e;
             (idx, e2) = next_index (e1\<lparr>parsedThinkingBlockStarted := True,
                                        thinkingBlockStarted := True\<rparr>);
             e3 = e2\<lparr>thinkingBlockIndex := idx\<rparr>
         in res_write (SynthBlockStart (thinkingBlockIndex e3) Thinking) e3)
      else e)"

definition closeParsedThinkingBlock :: "engine \<Rightarrow> engine" where
  "closeParsedThinkingBlock e =
     (if parsedThinkingBlockStarted e then
        (res_write (SynthBlockStop (thinkingBlockIndex e)) e)\<lparr>parsedThinkingBlockStarted := False\<rparr>
      else e)"

definition emitThinkingDelta :: "string \<Rightarrow> engine \<Rightarrow> engine" where
  "emitThinkingDelta content e =
     (let e1 = startParsedThinkingBlock e
      in res_write (SynthBlockDelta (thinkingBlockIndex e1) Thinking content) e1)"

definition emitTextDelta :: "string \<Rightarrow> engine \<Rightarrow> engine" where
  "emitTextDelta content e =
     (let e1 = closeParsedThinkingBlock e;
          e2 = startTextBlock e1
      in res_write (SynthBlockDelta (textBlockIndex e2) Text content) e2)"

text \<open>The \<open>for (const segment of segments)\<close> loop after \<open>processChunk\<close> and \<open>flush\<close>.\<close>

fun emit_segments :: "segment list \<Rightarrow> engine \<Rightarrow> engine" where
  "emit_segments [] e = e"
| "emit_segments ((ty, content) # segments) e =
     emit_segments segments
       (if content \<noteq> [] then
          (if ty = Thinking then emitThinkingDelta content e else emitTextDelta content e)
        else e)"

text \<open>The branch for an event of the delta-chunk dialect (\<open>event.choices[0].delta\<close>).\<close>

definition handle_choices_reasoning :: "string \<Rightarrow> engine \<Rightarrow> engine" where
  "handle_choices_reasoning reasoning_content e =
     (if reasoning_content \<noteq> [] then
        (let e1 =
           (if \<not> thinkingBlockStarted e then
              (let (idx, e2) = next_index (e\<lparr>thinkingBlockStarted := True\<rparr>);
                   e3 = ensureMessageStart (e2\<lparr>thinkingBlockIndex := idx\<rparr>)
               in res_write (SynthBlockStart (thinkingBlockIndex e3) Thinking) e3)
            else e)
         in res_write (SynthBlockDelta (thinkingBlockIndex e1) Thinking reasoning_content) e1)
      else e)"

definition handle_choices_content :: "string \<Rightarrow> engine \<Rightarrow> engine" where
  "handle_choices_content content e =
     (if content \<noteq> [] then
        (let e1 =
           (if thinkingBlockStarted e \<and> \<not> textBlockStarted e then
              res_write (SynthBlockStop (thinkingBlockIndex e)) e
            else e);
             e2 =
           (if \<not> textBlockStarted e1 then
              (let (idx, e3) = next_index (e1\<lparr>textBlockStarted := True\<rparr>);
                   e4 = ensureMessageStart (e3\<lparr>textBlockIndex := idx\<rparr>)
               in res_write (SynthBlockStart (textBlockIndex e4) Text) e4)
            else e1)
         in res_write (SynthBlockDelta (textBlockIndex e2) Text content) e2)
      else e)"

definition handle_choices_finish :: "string \<Rightarrow> engine \<Rightarrow> engine" where
  "handle_choices_finish finishReason e =
     (if finishReason \<noteq> [] then
        (let e1 = e\<lparr>stopReason :=
                     (if finishReason = ''tool_calls'' then ''tool_use''
                      else if finishReason = ''stop'' then ''end_turn'' else finishReason)\<rparr>
         in if textBlockStarted e1 then res_write (SynthBlockStop (textBlockIndex e1)) e1
            else if thinkingBlockStarted e1 then res_write (SynthBlockStop (thinkingBlockIndex e1)) e1
            else e1)
      else e)"

definition stream_internal :: "stream_env \<Rightarrow> string \<Rightarrow> bool" where
  "stream_internal env name = shouldHandleInternally (stream_config env) (stream_mcps env) name"

text \<open>\<open>case 'content_block_start'\<close>.\<close>

definition handle_block_start :: "stream_env \<Rightarrow> int \<Rightarrow> content_block \<Rightarrow> engine \<Rightarrow> engine" where
  "handle_block_start env index block e =
     (if cb_type block \<in> set SERVER_TOOL_TYPES then
        e\<lparr>streamState := (streamState e)\<lparr>skippingBlockIndex := Some index\<rparr>\<rparr>
      else if cb_type block \<notin> set VALID_CONTENT_TYPES then
        e\<lparr>streamState := (streamState e)\<lparr>skippingBlockIndex := Some index\<rparr>\<rparr>
      else if cb_type block = ''thinking'' then
        res_write (Forward (ContentBlockStart index block)) (e\<lparr>nativeThinkingBlockActive := True\<rparr>)
      else if cb_type block = ''tool_use'' then
        (let e1 = e\<lparr>currentToolUse :=
                     Some \<lparr>tu_id = cb_id block, tu_name = cb_name block, tu_input = [],
                           tu_index = index\<rparr>\<rparr>
         in if \<not> stream_internal env (cb_name block) then
              res_write (Forward (ContentBlockStart index block)) e1
            else e1)
      else if cb_type block = ''text'' \<and> thinkingEnabled env then e
      else res_write (Forward (ContentBlockStart index block)) e)"

text \<open>\<open>case 'content_block_delta'\<close>.\<close>

definition handle_block_delta :: "stream_env \<Rightarrow> int \<Rightarrow> upstream_delta \<Rightarrow> engine \<Rightarrow> engine" where
  "handle_block_delta env index delta e =
     (if skippingBlockIndex (streamState e) = Some index then e
      else
        (case (delta, currentToolUse e) of
           (InputJsonDelta partial_json, Some tu) \<Rightarrow>
             (let e1 = e\<lparr>currentToolUse := Some (tu\<lparr>tu_input := tu_input tu @ partial_json\<rparr>)\<rparr>
              in if \<not> stream_internal env (tu_name tu) then
                   res_write (Forward (ContentBlockDelta index delta)) e1
                 else e1)
         | (TextDelta text', _) \<Rightarrow>
             (if thinkingEnabled env then
                (case processChunk (reasoningParser e) text' of
                   (segments, parser') \<Rightarrow> emit_segments segments (e\<lparr>reasoningParser := parser'\<rparr>))
              else res_write (Forward (ContentBlockDelta index delta)) e)
         | _ \<Rightarrow> res_write (Forward (ContentBlockDelta index delta)) e))"

text \<open>
  \<open>case 'content_block_stop'\<close>. A tool call whose accumulated input does not parse
  is dropped; the empty input counts as \<open>{}\<close>.
\<close>

definition handle_block_stop :: "stream_env \<Rightarrow> int \<Rightarrow> engine \<Rightarrow> engine" where
  "handle_block_stop env index e =
     (if skippingBlockIndex (streamState e) = Some index then
        e\<lparr>streamState := (streamState e)\<lparr>skippingBlockIndex := None\<rparr>\<rparr>
      else
        (case currentToolUse e of
           Some tu \<Rightarrow>
             (let toolCall = \<lparr>tc_id = tu_id tu, tc_name = tu_name tu, tc_arguments = tu_input tu\<rparr>;
                  e1 =
                (if tu_input tu = [] \<or> valid_json env (tu_input tu) then
                   (let e2 = e\<lparr>fullContent := fullContent e @ [toolCall]\<rparr>
                    in if stream_internal env (tu_name tu) then
                         e2\<lparr>internalToolCalls := internalToolCalls e2 @ [toolCall]\<rparr>
                       else
                         res_write (Forward (ContentBlockStop index))
                           (e2\<lparr>clientToolCalls := clientToolCalls e2 @ [toolCall]\<rparr>))
                 else e)
              in e1\<lparr>currentToolUse := None\<rparr>)
         | None \<Rightarrow>
             (if nativeThinkingBlockActive e then
                (res_write (Forward (ContentBlockStop index)) e)\<lparr>nativeThinkingBlockActive := False\<rparr>
              else if thinkingEnabled env then
                (case flush (reasoningParser e) of
                   (remainingSegments, parser') \<Rightarrow>
                     (let e1 = emit_segments remainingSegments (e\<lparr>reasoningParser := parser'\<rparr>);
                          e2 = closeParsedThinkingBlock e1
                      in if textBlockStarted e2 then res_write (SynthBlockStop (textBlockIndex e2)) e2
                         else e2))
              else res_write (Forward (ContentBlockStop index)) e)))"

text \<open>The body of the \<open>for (const line of lines)\<close> loop for one parsed event.\<close>

definition handle_event :: "stream_env \<Rightarrow> upstream_event \<Rightarrow> engine \<Rightarrow> engine" where
  "handle_event env event e =
     (case event of
        ChoicesDelta reasoning_content content finishReason \<Rightarrow>
          handle_choices_finish finishReason
            (handle_choices_content content (handle_choices_reasoning reasoning_content e))
      | MessageStart \<Rightarrow>
          (if \<not> messageStartSent (streamState e) then
             (res_write (Forward MessageStart) e)\<lparr>streamState := (streamState e)\<lparr>messageStartSent := True\<rparr>\<rparr>
           else e)
      | ContentBlockStart index block \<Rightarrow> handle_block_start env index block e
      | ContentBlockDelta index delta \<Rightarrow> handle_block_delta env index delta e
      | ContentBlockStop index \<Rightarrow> handle_block_stop env index e
      | MessageDelta stop_reason \<Rightarrow>
          (if stop_reason \<noteq> [] then e\<lparr>stopReason := stop_reason\<rparr> else e)
      | MessageStop \<Rightarrow> e
      | UnknownEvent eventType \<Rightarrow> res_write (Forward (UnknownEvent eventType)) e)"

text \<open>
  What one backend request gives: the fetch fails or is answered with an error
  status (the message of the error thrown), or a stream of events that ends
  normally or with a failing read.
\<close>

datatype upstream_response = FetchError string | Stream "upstream_event list" bool

definition streamAnthropicWithToolDetection ::
  "stream_env \<Rightarrow> upstream_response \<Rightarrow> StreamState \<Rightarrow> out_event list \<Rightarrow> string + engine" where
  "streamAnthropicWithToolDetection env response ss w =
     (case response of
        FetchError message \<Rightarrow> Inl message
      | Stream events readFailed \<Rightarrow>
          (let e = foldl (\<lambda>e event. handle_event env event e) (new_round ss w) events
           in Inr (if readFailed then res_write (SynthError ''stream_error'') e else e)))"

definition sendFinalEvents :: "string \<Rightarrow> out_event list" where
  "sendFinalEvents stopReason' = [SynthMessageDelta stopReason', SynthMessageStop]"

definition maxToolIterations :: "stream_env \<Rightarrow> nat" where
  "maxToolIterations env =
     (if maxIterations (stream_config env) = 0 then 10 else maxIterations (stream_config env))"

text \<open>
  \<open>streamFromAnthropic\<close> and its recursive continuations. \<open>backend n\<close> is what the
  backend answers to the request of continuation \<open>n\<close>: the request carries the
  history with the tool results appended, and any deterministic backend and tool
  servers give some such sequence. The result is everything written to the response.
\<close>

function streamFromAnthropic_from ::
  "stream_env \<Rightarrow> (nat \<Rightarrow> upstream_response) \<Rightarrow> nat \<Rightarrow> StreamState \<Rightarrow> out_event list
     \<Rightarrow> out_event list" where
  "streamFromAnthropic_from env backend toolIteration ss w =
     (case streamAnthropicWithToolDetection env (backend toolIteration) ss w of
        Inl message \<Rightarrow> w @ [SynthError message]
      | Inr result \<Rightarrow>
          if internalToolCalls result \<noteq> [] then
            (if toolIteration + 1 > maxToolIterations env then
               written result @ sendFinalEvents ''end_turn''
             else
               streamFromAnthropic_from env backend (toolIteration + 1) (streamState result)
                 (written result))
          else if clientToolCalls result \<noteq> [] then
            written result @ sendFinalEvents ''tool_use''
          else
            written result @
              sendFinalEvents (if stopReason result = [] then ''end_turn'' else stopReason result))"
  by pat_completeness auto
termination
  by (relation "measure (\<lambda>(env, backend, toolIteration, ss, w).
        maxToolIterations env + 1 - toolIteration)") auto

definition streamFromAnthropic :: "stream_env \<Rightarrow> (nat \<Rightarrow> upstream_response) \<Rightarrow> out_event list" where
  "streamFromAnthropic env backend =
     streamFromAnthropic_from env backend 0
       \<lparr>messageStartSent = False, currentBlockIndex = 0, skippingBlockIndex = None\<rparr> []"

text \<open>The index an outbound \<open>content_block_start\<close> carries on the wire, forwarded or built.\<close>

definition start_index :: "out_event \<Rightarrow> int option" where
  "start_index ev =
     (case ev of
        Forward (ContentBlockStart i _) \<Rightarrow> Some i
      | SynthBlockStart i _ \<Rightarrow> Some i
      | _ \<Rightarrow> None)"

definition start_indices :: "out_event list \<Rightarrow> int list" where
  "start_indices evs = List.map_filter start_index evs"

text \<open>The indices of the \<open>content_block_start\<close> events the engine builds itself.\<close>

definition synth_start_index :: "out_event \<Rightarrow> int option" where
  "synth_start_index ev = (case ev of SynthBlockStart i _ \<Rightarrow> Some i | _ \<Rightarrow> None)"

definition synth_start_indices :: "out_event list \<Rightarrow> int list" where
  "synth_start_indices evs = List.map_filter synth_start_index evs"

subsection \<open>Observing the outbound sequence\<close>

text \<open>
  The text and thinking blocks that are open after a sequence of written events,
  oldest first: a \<open>content_block_start\<close> of kind text or thinking opens its index,
  a \<open>content_block_stop\<close> closes every open block of its index. \<open>single_open\<close>
  says that at no point more than one of them is open; \<open>disciplined\<close> says that at
  every point at most one text block and at most one thinking block is open, and
  that a text delta is only written while no thinking block is open.
\<close>

type_synonym open_blocks = "(int \<times> segment_type) list"

definition block_kind :: "content_block \<Rightarrow> segment_type option" where
  "block_kind block =
     (if cb_type block = ''text'' then Some Text
      else if cb_type block = ''thinking'' then Some Thinking else None)"

definition open_step :: "open_blocks \<Rightarrow> out_event \<Rightarrow> open_blocks" where
  "open_step opn ev =
     (case ev of
        SynthBlockStart i ty \<Rightarrow> opn @ [(i, ty)]
      | SynthBlockStop i \<Rightarrow> filter (\<lambda>b. fst b \<noteq> i) opn
      | Forward (ContentBlockStart i block) \<Rightarrow>
          (case block_kind block of Some ty \<Rightarrow> opn @ [(i, ty)] | None \<Rightarrow> opn)
      | Forward (ContentBlockStop i) \<Rightarrow> filter (\<lambda>b. fst b \<noteq> i) opn
      | _ \<Rightarrow> opn)"

definition open_after :: "out_event list \<Rightarrow> open_blocks" where
  "open_after evs = foldl open_step [] evs"

definition open_of_kind :: "segment_type \<Rightarrow> open_blocks \<Rightarrow> open_blocks" where
  "open_of_kind ty opn = filter (\<lambda>b. snd b = ty) opn"

fun single_open_from :: "open_blocks \<Rightarrow> out_event list \<Rightarrow> bool" where
  "single_open_from opn [] \<longleftrightarrow> length opn \<le> 1"
| "single_open_from opn (ev # evs) \<longleftrightarrow> length opn \<le> 1 \<and> single_open_from (open_step opn ev) evs"

definition single_open :: "out_event list \<Rightarrow> bool" where
  "single_open evs = single_open_from [] evs"

definition one_per_kind :: "open_blocks \<Rightarrow> bool" where
  "one_per_kind opn \<longleftrightarrow>
     length (open_of_kind Text opn) \<le> 1 \<and> length (open_of_kind Thinking opn) \<le> 1"

definition is_text_delta :: "out_event \<Rightarrow> bool" where
  "is_text_delta ev = (case ev of SynthBlockDelta i ty c \<Rightarrow> ty = Text | _ \<Rightarrow> False)"

definition text_ok :: "open_blocks \<Rightarrow> out_event \<Rightarrow> bool" where
  "text_ok opn ev \<longleftrightarrow> (is_text_delta ev \<longrightarrow> open_of_kind Thinking opn = [])"

fun disciplined_from :: "open_blocks \<Rightarrow> out_event list \<Rightarrow> bool" where
  "disciplined_from opn [] \<longleftrightarrow> one_per_kind opn"
| "disciplined_from opn (ev # evs) \<longleftrightarrow>
     one_per_kind opn \<and> text_ok opn ev \<and> disciplined_from (open_step opn ev) evs"

definition disciplined :: "out_event list \<Rightarrow> bool" where
  "disciplined evs = disciplined_from [] evs"

definition text_only :: "upstream_event \<Rightarrow> bool" where
  "text_only ev =
     (case ev of
        MessageStart \<Rightarrow> True
      | ContentBlockStart i block \<Rightarrow> cb_type block = ''text''
      | ContentBlockDelta i delta \<Rightarrow> (case delta of TextDelta t \<Rightarrow> True | _ \<Rightarrow> False)
      | ContentBlockStop i \<Rightarrow> True
      | MessageDelta s \<Rightarrow> True
      | MessageStop \<Rightarrow> True
      | _ \<Rightarrow> False)"

text \<open>
  A concrete setting: the default configuration with web search on and no custom
  tool server, a backend that answers the first request with a text block and a
  \<open>web_search\<close> call and the continuation with a text block, and a backend that
  streams one text block holding a reasoning tag.
\<close>

definition stream_demo_config :: config where
  "stream_demo_config =
     \<lparr>endpoint_mode = ''anthropic'', endpoint_useAnthropic = True, models_text = ''glm-4.7'',
      models_vision = ''glm-4.6v'', defaultModel = ''glm-4.7'', visionModel = ''glm-4.6v'',
      webSearch_enabled = True, maxIterations = 10, maxConsecutiveInternal = 10\<rparr>"

definition stream_demo_env :: "bool \<Rightarrow> stream_env" where
  "stream_demo_env thinking =
     \<lparr>thinkingEnabled = thinking, stream_config = stream_demo_config, stream_mcps = [],
      valid_json = (\<lambda>s. s = ''{}'')\<rparr>"

definition text_block :: content_block where
  "text_block = \<lparr>cb_type = ''text'', cb_id = [], cb_name = []\<rparr>"

definition search_block :: content_block where
  "search_block = \<lparr>cb_type = ''tool_use'', cb_id = ''toolu_1'', cb_name = ''web_search''\<rparr>"

definition search_backend :: "nat \<Rightarrow> upstream_response" where
  "search_backend n =
     (if n = 0 then
        Stream [MessageStart,
                ContentBlockStart 0 text_block,
                ContentBlockDelta 0 (TextDelta ''Searching''),
                ContentBlockStop 0,
                ContentBlockStart 1 search_block,
                ContentBlockDelta 1 (InputJsonDelta ''{}''),
                ContentBlockStop 1,
                MessageDelta ''tool_use'',
                MessageStop] False
      else
        Stream [MessageStart,
                ContentBlockStart 0 text_block,
                ContentBlockDelta 0 (TextDelta ''Done''),
                ContentBlockStop 0,
                MessageDelta ''end_turn'',
                MessageStop] False)"

definition tagged_events :: "upstream_event list" where
  "tagged_events =
     [MessageStart,
      ContentBlockStart 0 text_block,
      ContentBlockDelta 0 (TextDelta ''a<reasoning_content>b''),
      ContentBlockDelta 0 (TextDelta ''</reasoning_content>c''),
      ContentBlockStop 0,
      MessageDelta ''end_turn'',
      MessageStop]"

definition tagged_backend :: "nat \<Rightarrow> upstream_response" where
  "tagged_backend n = Stream tagged_events False"

text \<open>Invariants of the engine state, used in the proofs below.\<close>

definition counted :: "engine \<Rightarrow> bool" where
  "counted e \<longleftrightarrow>
     synth_start_indices (written e) = map int [0 ..< currentBlockIndex (streamState e)]"

definition tidy :: "engine \<Rightarrow> bool" where
  "tidy e \<longleftrightarrow>
     disciplined (written e) \<and>
     length (open_of_kind Text (open_after (written e))) \<le> 1 \<and>
     length (open_of_kind Thinking (open_after (written e))) \<le> 1 \<and>
     (\<not> textBlockStarted e \<longrightarrow> open_of_kind Text (open_after (written e)) = []) \<and>
     (\<not> parsedThinkingBlockStarted e \<longrightarrow> open_of_kind Thinking (open_after (written e)) = []) \<and>
     (\<forall>b \<in> set (open_of_kind Thinking (open_after (written e))). fst b = thinkingBlockIndex e)"

definition quiet :: "engine \<Rightarrow> bool" where
  "quiet e \<longleftrightarrow> currentToolUse e = None \<and> \<not> nativeThinkingBlockActive e \<and> internalToolCalls e = []"

declare streamFromAnthropic_from.simps [simp del]

subsection \<open>Indices assigned by the engine\<close>

lemma synth_start_indices_Nil [simp]: "synth_start_indices [] = []"
  by (simp add: synth_start_indices_def map_filter_simps)

lemma synth_start_indices_append [simp]:
  "synth_start_indices (a @ b) = synth_start_indices a @ synth_start_indices b"
  by (simp add: synth_start_indices_def map_filter_def)

lemma synth_start_index_simps [simp]:
  "synth_start_index (SynthBlockStart i ty) = Some i"
  "synth_start_index (Forward ev) = None"
  "synth_start_index SynthMessageStart = None"
  "synth_start_index (SynthBlockDelta i ty c) = None"
  "synth_start_index (SynthBlockStop i) = None"
  "synth_start_index (SynthMessageDelta s) = None"
  "synth_start_index SynthMessageStop = None"
  "synth_start_index (SynthError s) = None"
  by (simp_all add: synth_start_index_def)

lemma synth_start_indices_Cons [simp]:
  "synth_start_indices (ev # evs) =
     (case synth_start_index ev of None \<Rightarrow> synth_start_indices evs
      | Some i \<Rightarrow> i # synth_start_indices evs)"
  by (simp add: synth_start_indices_def map_filter_simps split: option.splits)

lemma counted_ensureMessageStart: "counted e \<Longrightarrow> counted (ensureMessageStart e)"
  by (simp add: counted_def ensureMessageStart_def res_write_def)

lemma counted_startTextBlock: "counted e \<Longrightarrow> counted (startTextBlock e)"
  by (simp add: counted_def startTextBlock_def ensureMessageStart_def next_index_def
      res_write_def Let_def)

lemma counted_startParsedThinkingBlock: "counted e \<Longrightarrow> counted (startParsedThinkingBlock e)"
  by (simp add: counted_def startParsedThinkingBlock_def ensureMessageStart_def next_index_def
      res_write_def Let_def)

lemma counted_closeParsedThinkingBlock: "counted e \<Longrightarrow> counted (closeParsedThinkingBlock e)"
  by (simp add: counted_def closeParsedThinkingBlock_def res_write_def)

lemma counted_emitThinkingDelta: "counted e \<Longrightarrow> counted (emitThinkingDelta c e)"
  using counted_startParsedThinkingBlock [of e]
  by (simp add: counted_def emitThinkingDelta_def res_write_def Let_def)

lemma counted_emitTextDelta: "counted e \<Longrightarrow> counted (emitTextDelta c e)"
  using counted_startTextBlock [OF counted_closeParsedThinkingBlock, of e]
  by (simp add: counted_def emitTextDelta_def res_write_def Let_def)

lemma counted_emit_segments: "counted e \<Longrightarrow> counted (emit_segments segs e)"
  by (induction segs e rule: emit_segments.induct)
     (simp_all add: counted_emitThinkingDelta counted_emitTextDelta)

lemma counted_parser [simp]: "counted (e\<lparr>reasoningParser := p\<rparr>) = counted e"
  by (simp add: counted_def)

lemma counted_choices_reasoning: "counted e \<Longrightarrow> counted (handle_choices_reasoning r e)"
  by (simp add: counted_def handle_choices_reasoning_def ensureMessageStart_def next_index_def
      res_write_def Let_def)

lemma counted_choices_content: "counted e \<Longrightarrow> counted (handle_choices_content c e)"
  by (simp add: counted_def handle_choices_content_def ensureMessageStart_def next_index_def
      res_write_def Let_def)

lemma counted_choices_finish: "counted e \<Longrightarrow> counted (handle_choices_finish f e)"
  by (simp add: counted_def handle_choices_finish_def res_write_def Let_def)

lemma counted_block_start: "counted e \<Longrightarrow> counted (handle_block_start env i b e)"
  by (simp add: counted_def handle_block_start_def res_write_def Let_def)

lemma counted_block_delta: "counted e \<Longrightarrow> counted (handle_block_delta env i d e)"
proof -
  assume c: "counted e"
  have fw: "counted (res_write (Forward ev) e)" for ev
    using c by (simp add: counted_def res_write_def)
  have fw': "counted (res_write (Forward ev) (e\<lparr>currentToolUse := t\<rparr>))" for ev t
    using c by (simp add: counted_def res_write_def)
  have tu: "counted (e\<lparr>currentToolUse := t\<rparr>)" for t
    using c by (simp add: counted_def)
  show ?thesis
    unfolding handle_block_delta_def
    by (cases d; cases "currentToolUse e")
       (simp_all add: fw fw' tu c Let_def counted_emit_segments split: prod.splits)
qed

lemma counted_block_stop: "counted e \<Longrightarrow> counted (handle_block_stop env i e)"
proof -
  assume c: "counted e"
  have seg: "counted (closeParsedThinkingBlock (emit_segments segs (e\<lparr>reasoningParser := p\<rparr>)))"
    for segs p
    using c by (simp add: counted_closeParsedThinkingBlock counted_emit_segments)
  have wr: "counted x \<Longrightarrow> counted (res_write (SynthBlockStop j) x)" for x j
    by (simp add: counted_def res_write_def)
  show ?thesis
  proof (cases "currentToolUse e")
    case None
    then show ?thesis
      using c seg wr
      by (simp add: handle_block_stop_def Let_def split: prod.splits)
         (simp add: counted_def res_write_def)
  next
    case (Some tu)
    then show ?thesis
      using c by (simp add: handle_block_stop_def Let_def counted_def res_write_def)
  qed
qed

lemma counted_handle_event: "counted e \<Longrightarrow> counted (handle_event env ev e)"
proof (cases ev)
  case (ChoicesDelta r c f)
  assume "counted e"
  then show ?thesis
    unfolding handle_event_def ChoicesDelta
    by (simp add: counted_choices_finish counted_choices_content counted_choices_reasoning)
qed (simp_all add: handle_event_def counted_block_start counted_block_delta counted_block_stop,
     simp_all add: counted_def res_write_def)

lemma counted_foldl:
  "counted e \<Longrightarrow> counted (foldl (\<lambda>e event. handle_event env event e) e events)"
  by (induction events arbitrary: e) (simp_all add: counted_handle_event)

lemma counted_new_round:
  "synth_start_indices w = map int [0 ..< currentBlockIndex ss] \<Longrightarrow> counted (new_round ss w)"
  by (simp add: counted_def new_round_def)

lemma counted_round:
  assumes "synth_start_indices w = map int [0 ..< currentBlockIndex ss]"
    and "streamAnthropicWithToolDetection env response ss w = Inr e"
  shows "counted e"
proof (cases response)
  case (FetchError m)
  then show ?thesis using assms(2) by (simp add: streamAnthropicWithToolDetection_def)
next
  case (Stream events failed)
  have c: "counted (foldl (\<lambda>e event. handle_event env event e) (new_round ss w) events)"
    by (rule counted_foldl [OF counted_new_round [OF assms(1)]])
  then have "counted (res_write (SynthError ''stream_error'')
      (foldl (\<lambda>e event. handle_event env event e) (new_round ss w) events))"
    by (simp add: counted_def res_write_def)
  then show ?thesis
    using assms(2) c Stream
    by (auto simp add: streamAnthropicWithToolDetection_def Let_def split: if_splits)
qed

lemma counted_from:
  "synth_start_indices w = map int [0 ..< currentBlockIndex ss] \<Longrightarrow>
   \<exists>n. synth_start_indices (streamFromAnthropic_from env backend toolIteration ss w)
        = map int [0 ..< n]"
proof (induction env backend toolIteration ss w rule: streamFromAnthropic_from.induct)
  case (1 env backend toolIteration ss w)
  show ?case
  proof (cases "streamAnthropicWithToolDetection env (backend toolIteration) ss w")
    case (Inl m)
    then show ?thesis
      using "1.prems"
      by (subst streamFromAnthropic_from.simps) auto
  next
    case (Inr e)
    have c: "counted e" by (rule counted_round [OF "1.prems" Inr])
    then have c': "synth_start_indices (written e) = map int [0 ..< currentBlockIndex (streamState e)]"
      by (simp add: counted_def)
    have fin: "\<exists>n. synth_start_indices (written e @ sendFinalEvents s) = map int [0 ..< n]" for s
      using c' by (auto simp add: sendFinalEvents_def)
    show ?thesis
    proof (cases "internalToolCalls e \<noteq> [] \<and> \<not> toolIteration + 1 > maxToolIterations env")
      case True
      then have "\<exists>n. synth_start_indices
           (streamFromAnthropic_from env backend (toolIteration + 1) (streamState e) (written e))
         = map int [0 ..< n]"
        using "1.IH" [OF Inr _ _ c'] by simp
      then show ?thesis
        using True Inr by (subst streamFromAnthropic_from.simps) simp
    next
      case False
      then show ?thesis
        using Inr fin by (subst streamFromAnthropic_from.simps) auto
    qed
  qed
qed

lemma synth_indices_consecutive:
  "\<exists>n. synth_start_indices (streamFromAnthropic env backend) = map int [0 ..< n]"
  unfolding streamFromAnthropic_def by (rule counted_from) simp

lemma search_synth_start_indices:
  "synth_start_indices (streamFromAnthropic (stream_demo_env True) search_backend) = [0, 1]"
  by code_simp

text \<open>
  C3 (as stated) fails. A \<open>content_block_start\<close> that is forwarded keeps the index
  the backend gave it, and the backend numbers the blocks of every continuation
  from 0 again: with parsing off, a first round with a text block and an internal
  \<open>web_search\<close> call followed by a second round with a text block writes two
  \<open>content_block_start\<close> events of index 0.
\<close>

theorem forwarded_start_index_reused:
  "start_indices (streamFromAnthropic (stream_demo_env False) search_backend) = [0, 0] \<and>
   \<not> distinct (start_indices (streamFromAnthropic (stream_demo_env False) search_backend)) \<and>
   \<not> sorted_wrt (<) (start_indices (streamFromAnthropic (stream_demo_env False) search_backend))"
  by code_simp

text \<open>
  C3 (amended). The indices the engine assigns itself, those of the
  \<open>content_block_start\<close> events it builds from \<open>StreamState.currentBlockIndex\<close>, are
  over one streamed response, with every continuation that shares the stream
  state, exactly \<open>0, 1, ..., n - 1\<close> in the order written: strictly increasing from 0
  and never reused.
\<close>

theorem block_index_monotonicity:
  "(\<exists>n. synth_start_indices (streamFromAnthropic env backend) = map int [0 ..< n]) \<and>
   sorted_wrt (<) (synth_start_indices (streamFromAnthropic env backend)) \<and>
   distinct (synth_start_indices (streamFromAnthropic env backend))"
proof -
  obtain n where n: "synth_start_indices (streamFromAnthropic env backend) = map int [0 ..< n]"
    using synth_indices_consecutive by blast
  have "sorted_wrt (<) (map int [0 ..< n])"
    by (simp add: sorted_wrt_map)
  moreover have "distinct (map int [0 ..< n])"
    by (simp add: distinct_map)
  ultimately show ?thesis using n by auto
qed

theorem block_index_monotonicity_witness:
  "synth_start_indices (streamFromAnthropic (stream_demo_env True) search_backend) = [0, 1] \<and>
   sorted_wrt (<) (synth_start_indices (streamFromAnthropic (stream_demo_env True) search_backend)) \<and>
   distinct (synth_start_indices (streamFromAnthropic (stream_demo_env True) search_backend))"
  using block_index_monotonicity [of "stream_demo_env True" search_backend]
    search_synth_start_indices
  by simp

subsection \<open>Open text and thinking blocks\<close>

lemma disciplined_from_head: "disciplined_from opn evs \<Longrightarrow> one_per_kind opn"
  by (cases evs) simp_all

lemma disciplined_from_append:
  "disciplined_from opn (a @ b) \<longleftrightarrow>
     disciplined_from opn a \<and> disciplined_from (foldl open_step opn a) b"
proof (induction a arbitrary: opn)
  case Nil
  show ?case using disciplined_from_head [of opn b] by auto
next
  case (Cons ev a)
  then show ?case by simp
qed

lemma disciplined_from_last:
  "disciplined_from opn evs \<Longrightarrow> one_per_kind (foldl open_step opn evs)"
  by (induction evs arbitrary: opn) simp_all

lemma disciplined_snoc:
  "disciplined (w @ [ev]) \<longleftrightarrow>
     disciplined w \<and> text_ok (open_after w) ev \<and> one_per_kind (open_step (open_after w) ev)"
  using disciplined_from_last [of "[]" w]
  by (auto simp add: disciplined_def open_after_def disciplined_from_append)

lemma open_after_snoc: "open_after (w @ [ev]) = open_step (open_after w) ev"
  by (simp add: open_after_def)

lemma open_of_kind_filter:
  "open_of_kind ty (filter P opn) = filter P (open_of_kind ty opn)"
  by (simp add: open_of_kind_def conj_commute)

lemma open_of_kind_snoc:
  "open_of_kind ty (opn @ [(i, ty')]) = open_of_kind ty opn @ (if ty' = ty then [(i, ty')] else [])"
  by (simp add: open_of_kind_def)

lemma length_filter_le1: "length xs \<le> n \<Longrightarrow> length (filter P xs) \<le> n"
  using length_filter_le [of P xs] by arith

lemma tidy_plain:
  assumes "tidy e" and "open_step (open_after (written e)) ev = open_after (written e)"
    and "\<not> is_text_delta ev"
  shows "tidy (res_write ev e)"
  using assms
  by (simp add: tidy_def res_write_def disciplined_snoc open_after_snoc text_ok_def one_per_kind_def)

lemma open_step_plain [simp]:
  "open_step opn SynthMessageStart = opn"
  "open_step opn (SynthBlockDelta i ty c) = opn"
  "open_step opn (SynthMessageDelta s) = opn"
  "open_step opn SynthMessageStop = opn"
  "open_step opn (SynthError s) = opn"
  "open_step opn (Forward MessageStart) = opn"
  "open_step opn (SynthBlockStart i ty) = opn @ [(i, ty)]"
  "open_step opn (SynthBlockStop i) = filter (\<lambda>b. fst b \<noteq> i) opn"
  "open_step opn (Forward (ContentBlockStop i)) = filter (\<lambda>b. fst b \<noteq> i) opn"
  by (simp_all add: open_step_def)

lemma is_text_delta_simps [simp]:
  "is_text_delta (SynthBlockDelta i ty c) \<longleftrightarrow> ty = Text"
  "\<not> is_text_delta SynthMessageStart"
  "\<not> is_text_delta (SynthBlockStart i ty)"
  "\<not> is_text_delta (SynthBlockStop i)"
  "\<not> is_text_delta (SynthMessageDelta s)"
  "\<not> is_text_delta SynthMessageStop"
  "\<not> is_text_delta (SynthError s)"
  "\<not> is_text_delta (Forward ev)"
  by (simp_all add: is_text_delta_def)

lemma tidy_fields [simp]:
  "tidy (e\<lparr>reasoningParser := p\<rparr>) = tidy e"
  "tidy (e\<lparr>streamState := s\<rparr>) = tidy e"
  "tidy (e\<lparr>stopReason := r\<rparr>) = tidy e"
  by (simp_all add: tidy_def)

lemma tidy_ensureMessageStart: "tidy e \<Longrightarrow> tidy (ensureMessageStart e)"
  using tidy_plain [of e SynthMessageStart]
  by (simp add: ensureMessageStart_def)

lemma ensureMessageStart_fields [simp]:
  "textBlockStarted (ensureMessageStart e) = textBlockStarted e"
  "parsedThinkingBlockStarted (ensureMessageStart e) = parsedThinkingBlockStarted e"
  "thinkingBlockIndex (ensureMessageStart e) = thinkingBlockIndex e"
  by (simp_all add: ensureMessageStart_def res_write_def)

lemma tidy_start_text:
  assumes "tidy e" and "\<not> textBlockStarted e"
  shows "tidy ((res_write (SynthBlockStart i Text) e)\<lparr>textBlockStarted := True, textBlockIndex := j\<rparr>)"
  using assms
  by (simp add: tidy_def res_write_def disciplined_snoc open_after_snoc text_ok_def
      one_per_kind_def open_of_kind_snoc)

lemma tidy_start_thinking:
  assumes "tidy e" and "\<not> parsedThinkingBlockStarted e"
  shows "tidy ((res_write (SynthBlockStart i Thinking) e)
           \<lparr>parsedThinkingBlockStarted := True, thinkingBlockStarted := t, thinkingBlockIndex := i\<rparr>)"
  using assms
  by (simp add: tidy_def res_write_def disciplined_snoc open_after_snoc text_ok_def
      one_per_kind_def open_of_kind_snoc)

lemma tidy_startTextBlock: "tidy e \<Longrightarrow> tidy (startTextBlock e)"
proof (cases "textBlockStarted e")
  case True
  assume "tidy e"
  then show ?thesis using True by (simp add: startTextBlock_def)
next
  case False
  assume "tidy e"
  then have t: "tidy (ensureMessageStart e)" by (rule tidy_ensureMessageStart)
  have f: "\<not> textBlockStarted (ensureMessageStart e)" using False by simp
  have eq: "startTextBlock e =
      ((res_write (SynthBlockStart (int (currentBlockIndex (streamState (ensureMessageStart e)))) Text)
         (ensureMessageStart e))
         \<lparr>textBlockStarted := True,
          textBlockIndex := int (currentBlockIndex (streamState (ensureMessageStart e)))\<rparr>)
        \<lparr>streamState := (streamState (ensureMessageStart e))
           \<lparr>currentBlockIndex := currentBlockIndex (streamState (ensureMessageStart e)) + 1\<rparr>\<rparr>"
    using False by (simp add: startTextBlock_def next_index_def res_write_def Let_def)
  show ?thesis
    unfolding eq using tidy_start_text [OF t f] by simp
qed

lemma tidy_startParsedThinkingBlock: "tidy e \<Longrightarrow> tidy (startParsedThinkingBlock e)"
proof (cases "parsedThinkingBlockStarted e")
  case True
  assume "tidy e"
  then show ?thesis using True by (simp add: startParsedThinkingBlock_def)
next
  case False
  assume "tidy e"
  then have t: "tidy (ensureMessageStart e)" by (rule tidy_ensureMessageStart)
  have f: "\<not> parsedThinkingBlockStarted (ensureMessageStart e)" using False by simp
  have eq: "startParsedThinkingBlock e =
      ((res_write (SynthBlockStart (int (currentBlockIndex (streamState (ensureMessageStart e)))) Thinking)
         (ensureMessageStart e))
         \<lparr>parsedThinkingBlockStarted := True, thinkingBlockStarted := True,
          thinkingBlockIndex := int (currentBlockIndex (streamState (ensureMessageStart e)))\<rparr>)
        \<lparr>streamState := (streamState (ensureMessageStart e))
           \<lparr>currentBlockIndex := currentBlockIndex (streamState (ensureMessageStart e)) + 1\<rparr>\<rparr>"
    using False by (simp add: startParsedThinkingBlock_def next_index_def res_write_def Let_def)
  show ?thesis
    unfolding eq using tidy_start_thinking [OF t f] by simp
qed

lemma tidy_closeParsedThinkingBlock:
  "tidy e \<Longrightarrow> tidy (closeParsedThinkingBlock e) \<and> \<not> parsedThinkingBlockStarted (closeParsedThinkingBlock e)"
proof (cases "parsedThinkingBlockStarted e")
  case False
  assume "tidy e"
  then show ?thesis using False by (simp add: closeParsedThinkingBlock_def)
next
  case True
  assume t: "tidy e"
  let ?opn = "open_after (written e)"
  have all: "\<forall>b \<in> set (open_of_kind Thinking ?opn). fst b = thinkingBlockIndex e"
    using t by (simp add: tidy_def)
  have gone: "filter (\<lambda>b. fst b \<noteq> thinkingBlockIndex e) (open_of_kind Thinking ?opn) = []"
    using all by (simp add: filter_empty_conv)
  have tx: "length (filter (\<lambda>b. fst b \<noteq> thinkingBlockIndex e) (open_of_kind Text ?opn)) \<le> 1"
    using t by (intro length_filter_le1) (simp add: tidy_def)
  have tx0: "\<not> textBlockStarted e \<Longrightarrow>
      filter (\<lambda>b. fst b \<noteq> thinkingBlockIndex e) (open_of_kind Text ?opn) = []"
    using t by (simp add: tidy_def)
  show ?thesis
    using t True gone tx tx0
    by (simp add: closeParsedThinkingBlock_def tidy_def res_write_def disciplined_snoc
        open_after_snoc text_ok_def one_per_kind_def open_of_kind_filter)
qed

lemma startTextBlock_parsed [simp]:
  "parsedThinkingBlockStarted (startTextBlock e) = parsedThinkingBlockStarted e"
  by (simp add: startTextBlock_def next_index_def res_write_def Let_def ensureMessageStart_def)

lemma tidy_emitTextDelta: "tidy e \<Longrightarrow> tidy (emitTextDelta c e)"
proof -
  assume t: "tidy e"
  let ?e2 = "startTextBlock (closeParsedThinkingBlock e)"
  have t2: "tidy ?e2"
    using tidy_closeParsedThinkingBlock [OF t] by (simp add: tidy_startTextBlock)
  have np: "\<not> parsedThinkingBlockStarted ?e2"
    using tidy_closeParsedThinkingBlock [OF t] by simp
  have none: "open_of_kind Thinking (open_after (written ?e2)) = []"
    using t2 np by (simp add: tidy_def)
  have "tidy (res_write (SynthBlockDelta (textBlockIndex ?e2) Text c) ?e2)"
    using t2 none
    by (simp add: tidy_def res_write_def disciplined_snoc open_after_snoc text_ok_def
        one_per_kind_def)
  then show ?thesis by (simp add: emitTextDelta_def Let_def)
qed

lemma tidy_emitThinkingDelta: "tidy e \<Longrightarrow> tidy (emitThinkingDelta c e)"
proof -
  assume t: "tidy e"
  let ?e1 = "startParsedThinkingBlock e"
  have t1: "tidy ?e1" using t by (rule tidy_startParsedThinkingBlock)
  have "tidy (res_write (SynthBlockDelta (thinkingBlockIndex ?e1) Thinking c) ?e1)"
    by (rule tidy_plain [OF t1]) simp_all
  then show ?thesis by (simp add: emitThinkingDelta_def Let_def)
qed

lemma tidy_emit_segments: "tidy e \<Longrightarrow> tidy (emit_segments segs e)"
  by (induction segs e rule: emit_segments.induct)
     (simp_all add: tidy_emitThinkingDelta tidy_emitTextDelta)

lemma quiet_helpers [simp]:
  "quiet (res_write ev e) = quiet e"
  "quiet (ensureMessageStart e) = quiet e"
  "quiet (startTextBlock e) = quiet e"
  "quiet (startParsedThinkingBlock e) = quiet e"
  "quiet (closeParsedThinkingBlock e) = quiet e"
  "quiet (emitThinkingDelta c e) = quiet e"
  "quiet (emitTextDelta c e) = quiet e"
  "quiet (e\<lparr>reasoningParser := p\<rparr>) = quiet e"
  "quiet (e\<lparr>streamState := s\<rparr>) = quiet e"
  "quiet (e\<lparr>stopReason := r\<rparr>) = quiet e"
  by (simp_all add: quiet_def res_write_def ensureMessageStart_def startTextBlock_def
      startParsedThinkingBlock_def closeParsedThinkingBlock_def emitThinkingDelta_def
      emitTextDelta_def next_index_def Let_def)

lemma quiet_emit_segments [simp]: "quiet (emit_segments segs e) = quiet e"
  by (induction segs e rule: emit_segments.induct) simp_all

lemma tidy_stop: "tidy e \<Longrightarrow> tidy (res_write (SynthBlockStop j) e)"
proof -
  assume t: "tidy e"
  let ?opn = "open_after (written e)"
  have l1: "length (filter (\<lambda>b. fst b \<noteq> j) (open_of_kind Text ?opn)) \<le> 1"
    using t by (intro length_filter_le1) (simp add: tidy_def)
  have l2: "length (filter (\<lambda>b. fst b \<noteq> j) (open_of_kind Thinking ?opn)) \<le> 1"
    using t by (intro length_filter_le1) (simp add: tidy_def)
  show ?thesis
    using t l1 l2
    by (simp add: tidy_def res_write_def disciplined_snoc open_after_snoc text_ok_def
        one_per_kind_def open_of_kind_filter)
qed

lemma tidy_block_start:
  assumes "thinkingEnabled env" and "cb_type b = ''text''"
  shows "handle_block_start env i b e = e"
  using assms
  by (simp add: handle_block_start_def SERVER_TOOL_TYPES_def VALID_CONTENT_TYPES_def)

lemma tidy_block_delta:
  assumes "thinkingEnabled env" and "tidy e"
  shows "tidy (handle_block_delta env i (TextDelta t) e)"
    and "quiet (handle_block_delta env i (TextDelta t) e) = quiet e"
  using assms
  by (simp_all add: handle_block_delta_def tidy_emit_segments split: prod.splits)

lemma tidy_block_stop:
  assumes "thinkingEnabled env" and "tidy e" and "quiet e"
  shows "tidy (handle_block_stop env i e) \<and> quiet (handle_block_stop env i e)"
proof (cases "skippingBlockIndex (streamState e) = Some i")
  case True
  then show ?thesis using assms by (simp add: handle_block_stop_def)
next
  case False
  obtain segs p where f: "flush (reasoningParser e) = (segs, p)" by (cases "flush (reasoningParser e)")
  let ?e2 = "closeParsedThinkingBlock (emit_segments segs (e\<lparr>reasoningParser := p\<rparr>))"
  have t2: "tidy ?e2"
    using assms(2) tidy_closeParsedThinkingBlock [OF tidy_emit_segments, of "e\<lparr>reasoningParser := p\<rparr>" segs]
    by simp
  have q2: "quiet ?e2" using assms(3) by simp
  have eq: "handle_block_stop env i e =
      (if textBlockStarted ?e2 then res_write (SynthBlockStop (textBlockIndex ?e2)) ?e2 else ?e2)"
    using False assms(1,3) f by (simp add: handle_block_stop_def quiet_def Let_def)
  show ?thesis
    unfolding eq using t2 q2 by (simp add: tidy_stop)
qed

lemma tidy_handle_event:
  assumes "thinkingEnabled env" and "text_only ev" and "tidy e" and "quiet e"
  shows "tidy (handle_event env ev e) \<and> quiet (handle_event env ev e)"
proof (cases ev)
  case MessageStart
  have "tidy (res_write (Forward MessageStart) e)"
    by (rule tidy_plain [OF assms(3)]) simp_all
  then show ?thesis using assms(3,4) MessageStart by (simp add: handle_event_def)
next
  case (ContentBlockStart i b)
  then show ?thesis
    using assms by (simp add: handle_event_def text_only_def tidy_block_start)
next
  case (ContentBlockDelta i d)
  then obtain t where d: "d = TextDelta t"
    using assms(2) by (cases d) (simp_all add: text_only_def)
  show ?thesis
    using assms tidy_block_delta [OF assms(1,3)]
    by (simp add: handle_event_def ContentBlockDelta d)
next
  case (ContentBlockStop i)
  then show ?thesis
    using tidy_block_stop [OF assms(1,3,4)] by (simp add: handle_event_def)
next
  case (MessageDelta s)
  then show ?thesis using assms(3,4) by (simp add: handle_event_def)
next
  case MessageStop
  then show ?thesis using assms(3,4) by (simp add: handle_event_def)
next
  case (ChoicesDelta r c f)
  then show ?thesis using assms(2) by (simp add: text_only_def)
next
  case (UnknownEvent s)
  then show ?thesis using assms(2) by (simp add: text_only_def)
qed

lemma tidy_foldl:
  assumes "thinkingEnabled env" and "list_all text_only events" and "tidy e" and "quiet e"
  shows "tidy (foldl (\<lambda>e event. handle_event env event e) e events) \<and>
         quiet (foldl (\<lambda>e event. handle_event env event e) e events)"
  using assms(2-)
proof (induction events arbitrary: e)
  case Nil
  then show ?case by simp
next
  case (Cons ev events)
  have "tidy (handle_event env ev e) \<and> quiet (handle_event env ev e)"
    using Cons.prems by (intro tidy_handle_event [OF assms(1)]) simp_all
  then show ?case using Cons.IH [of "handle_event env ev e"] Cons.prems by simp
qed

lemma tidy_new_round: "tidy (new_round ss []) \<and> quiet (new_round ss [])"
  by (simp add: tidy_def quiet_def new_round_def disciplined_def open_after_def one_per_kind_def
      open_of_kind_def)

lemma disciplined_final:
  assumes "tidy e"
  shows "disciplined (written e @ sendFinalEvents s)"
  using assms
  by (simp add: tidy_def disciplined_def disciplined_from_append sendFinalEvents_def text_ok_def
      one_per_kind_def open_after_def)

lemma from_no_internal:
  assumes "streamAnthropicWithToolDetection env (backend n) ss w = Inr r"
    and "internalToolCalls r = []"
  shows "\<exists>s. streamFromAnthropic_from env backend n ss w = written r @ sendFinalEvents s"
  by (subst streamFromAnthropic_from.simps) (auto simp add: assms)

text \<open>
  C4 (as stated) fails. \<open>emitThinkingDelta\<close> starts a thinking block without
  stopping the text block: for the text \<open>a<reasoning_content>b</reasoning_content>c\<close>
  the text block 0 and the thinking block 1 are both open after the fourth event
  written.
\<close>

theorem text_and_thinking_both_open:
  "take 4 (streamFromAnthropic (stream_demo_env True) tagged_backend) =
     [Forward MessageStart, SynthBlockStart 0 Text, SynthBlockDelta 0 Text ''a'',
      SynthBlockStart 1 Thinking] \<and>
   open_after (take 4 (streamFromAnthropic (stream_demo_env True) tagged_backend))
     = [(0, Text), (1, Thinking)] \<and>
   \<not> single_open (streamFromAnthropic (stream_demo_env True) tagged_backend)"
  by code_simp

text \<open>
  C4 (amended). When the engine parses reasoning tags and the backend streams text
  blocks only, then at every point of the outbound sequence at most one text block
  and at most one thinking block is open, and a text delta is only written while no
  thinking block is open: \<open>emitTextDelta\<close> stops the open thinking block before it
  starts or continues the text block. The text block stays open while a thinking
  block is opened.
\<close>

theorem parsed_text_discipline:
  assumes "thinkingEnabled env" and "backend 0 = Stream events readFailed"
    and "list_all text_only events"
  shows "disciplined (streamFromAnthropic env backend)"
proof -
  let ?e = "foldl (\<lambda>e event. handle_event env event e) (new_round
      \<lparr>messageStartSent = False, currentBlockIndex = 0, skippingBlockIndex = None\<rparr> []) events"
  let ?r = "if readFailed then res_write (SynthError ''stream_error'') ?e else ?e"
  have tq: "tidy ?e \<and> quiet ?e"
    using tidy_foldl [OF assms(1,3)] tidy_new_round by blast
  have "tidy (res_write (SynthError ''stream_error'') ?e)"
    by (rule tidy_plain) (simp_all add: tq)
  then have tr: "tidy ?r" and qr: "quiet ?r" using tq by simp_all
  have round: "streamAnthropicWithToolDetection env (backend 0)
      \<lparr>messageStartSent = False, currentBlockIndex = 0, skippingBlockIndex = None\<rparr> [] = Inr ?r"
    by (simp add: streamAnthropicWithToolDetection_def assms(2) Let_def)
  have "internalToolCalls ?r = []" using qr unfolding quiet_def by blast
  then have "\<exists>s. streamFromAnthropic env backend = written ?r @ sendFinalEvents s"
    unfolding streamFromAnthropic_def
    by (rule from_no_internal [where backend = backend and n = 0, OF round])
  then show ?thesis using disciplined_final [OF tr] by auto
qed

theorem parsed_text_discipline_witness:
  "thinkingEnabled (stream_demo_env True) \<and>
   tagged_backend 0 = Stream tagged_events False \<and>
   list_all text_only tagged_events \<and>
   disciplined (streamFromAnthropic (stream_demo_env True) tagged_backend)"
  using parsed_text_discipline [of "stream_demo_env True" tagged_backend tagged_events False]
  by (simp add: stream_demo_env_def tagged_backend_def tagged_events_def text_only_def
      text_block_def)

end
